theory Spec2Isabelle
  imports Main
begin

section \<open>Values exchanged with the stores\<close>

text \<open>
  \<^verbatim>\<open>auth.Credential\<close> is a struct of four strings and \<^verbatim>\<open>auth.EmptyCredential\<close> is its
  zero value; the code compares credentials with \<^verbatim>\<open>!=\<close>, that is field by field.
\<close>

record Credential =
  Username :: string
  Password :: string
  RefreshToken :: string
  AccessToken :: string

definition EmptyCredential :: Credential where
  "EmptyCredential =
     \<lparr>Username = [], Password = [], RefreshToken = [], AccessToken = []\<rparr>"

text \<open>
  A Go \<^verbatim>\<open>error\<close> value: either an error made by a collaborator, told apart by its
  message, or the result of \<^verbatim>\<open>fmt.Errorf(prefix + "%w", err)\<close>, which keeps the wrapped
  error. The nil error is \<open>None\<close> of \<open>error option\<close>.
\<close>

datatype error = Err string | Wrapped string error

definition Errorf_w :: "string \<Rightarrow> error \<Rightarrow> error" where
  "Errorf_w prefix err = Wrapped prefix err"

text \<open>A call either returns or panics (an index out of range is a run-time panic in Go).\<close>

datatype 'a outcome = Panics | Returns 'a

section \<open>The Store interface and its implementations\<close>

text \<open>
  \<^verbatim>\<open>FileStore\<close> has the public field \<^verbatim>\<open>DisablePut\<close> and keeps the pointer to the config
  it was made from. \<open>'p\<close> is the type of such pointers.
\<close>

record 'p FileStore =
  DisablePut :: bool
  fs_config :: 'p

text \<open>
  The stores whose methods are written outside \<^verbatim>\<open>store.go\<close>: the native store of a
  helper, the file store, and any other implementation of the interface a caller may
  hand to \<^verbatim>\<open>NewStoreWithFallbacks\<close> (identified by a value of type \<open>'b\<close>).
\<close>

datatype ('p, 'b) backend =
    NativeStore string
  | FileStoreOf "'p FileStore"
  | OtherStore 'b

text \<open>
  A value of the interface \<^verbatim>\<open>Store\<close> is one of those, or a \<^verbatim>\<open>*storeWithFallbacks\<close>,
  whose only field is the slice \<^verbatim>\<open>stores\<close>.
\<close>

datatype ('p, 'b) Store =
    Backend "('p, 'b) backend"
  | StoreWithFallbacks "('p, 'b) Store list"

section \<open>The collaborators\<close>

text \<open>
  Everything \<^verbatim>\<open>store.go\<close> calls but does not define is a parameter: the methods of
  \<^verbatim>\<open>config.Config\<close>, the detection of the platform default and the methods of the
  backends. \<open>'w\<close> is the state of everything outside the resolver (the config
  object behind the pointer, the file system, the keychains); a method that may
  change it returns the new state. \<open>'c\<close> is \<^verbatim>\<open>context.Context\<close>.
\<close>

record ('c, 'p, 'b, 'w) env =
  config_Load :: "string \<Rightarrow> 'w \<Rightarrow> (error + 'p) \<times> 'w"
  IsAuthConfigured :: "'p \<Rightarrow> 'w \<Rightarrow> bool"
  GetCredentialHelper :: "'p \<Rightarrow> string \<Rightarrow> 'w \<Rightarrow> string"
  CredentialsStore :: "'p \<Rightarrow> 'w \<Rightarrow> string"
  SetCredentialsStore :: "'p \<Rightarrow> string \<Rightarrow> 'w \<Rightarrow> error option \<times> 'w"
  getDefaultHelperSuffix :: "'w \<Rightarrow> string"
  backend_Get ::
    "('p, 'b) backend \<Rightarrow> 'c \<Rightarrow> string \<Rightarrow> 'w \<Rightarrow> (Credential \<times> error option) \<times> 'w"
  backend_Put ::
    "('p, 'b) backend \<Rightarrow> 'c \<Rightarrow> string \<Rightarrow> Credential \<Rightarrow> 'w \<Rightarrow> error option \<times> 'w"
  backend_Delete ::
    "('p, 'b) backend \<Rightarrow> 'c \<Rightarrow> string \<Rightarrow> 'w \<Rightarrow> error option \<times> 'w"

text \<open>
  Modelled from the spec: \<^verbatim>\<open>NewNativeStore\<close> (native_store.go) returns the native-helper
  backend named by the given helper suffix.
\<close>

definition NewNativeStore :: "string \<Rightarrow> ('p, 'b) Store" where
  "NewNativeStore helperSuffix = Backend (NativeStore helperSuffix)"

text \<open>
  Modelled from the spec: \<^verbatim>\<open>newFileStore\<close> (file_store.go) returns the plaintext file
  store of the given config; \<^verbatim>\<open>DisablePut\<close> has its zero value.
\<close>

definition newFileStore :: "'p \<Rightarrow> 'p FileStore" where
  "newFileStore cfg = \<lparr>DisablePut = False, fs_config = cfg\<rparr>"

section \<open>storeWithFallbacks\<close>

text \<open>
  \<open>Store_Get\<close>, \<open>Store_Put\<close> and \<open>Store_Delete\<close> are the dynamic dispatch of a
  method call on an interface value; the \<open>storeWithFallbacks_\<close> functions are the
  methods of \<^verbatim>\<open>*storeWithFallbacks\<close>, given its field \<^verbatim>\<open>stores\<close>.
\<close>

fun Store_Get ::
    "('c, 'p, 'b, 'w) env \<Rightarrow> ('p, 'b) Store \<Rightarrow> 'c \<Rightarrow> string \<Rightarrow> 'w
      \<Rightarrow> (Credential \<times> error option) \<times> 'w"
  and storeWithFallbacks_Get ::
    "('c, 'p, 'b, 'w) env \<Rightarrow> ('p, 'b) Store list \<Rightarrow> 'c \<Rightarrow> string \<Rightarrow> 'w
      \<Rightarrow> (Credential \<times> error option) \<times> 'w"
where
  "Store_Get env (Backend b) ctx serverAddress w = backend_Get env b ctx serverAddress w"
| "Store_Get env (StoreWithFallbacks stores) ctx serverAddress w =
     storeWithFallbacks_Get env stores ctx serverAddress w"
| "storeWithFallbacks_Get env [] ctx serverAddress w = ((EmptyCredential, None), w)"
| "storeWithFallbacks_Get env (s # stores) ctx serverAddress w =
     (case Store_Get env s ctx serverAddress w of
        ((cred, Some err), w') \<Rightarrow> ((EmptyCredential, Some err), w')
      | ((cred, None), w') \<Rightarrow>
          if cred \<noteq> EmptyCredential then ((cred, None), w')
          else storeWithFallbacks_Get env stores ctx serverAddress w')"

text \<open>
  Indexing a slice panics when the index is out of range. \<^verbatim>\<open>Put\<close> and \<^verbatim>\<open>Delete\<close> of
  \<^verbatim>\<open>*storeWithFallbacks\<close> index \<^verbatim>\<open>stores\<close> at 0 without a check.
\<close>

definition index :: "'a list \<Rightarrow> nat \<Rightarrow> 'a outcome" where
  "index xs i = (if i < length xs then Returns (xs ! i) else Panics)"

function Store_Put ::
    "('c, 'p, 'b, 'w) env \<Rightarrow> ('p, 'b) Store \<Rightarrow> 'c \<Rightarrow> string \<Rightarrow> Credential \<Rightarrow> 'w
      \<Rightarrow> (error option \<times> 'w) outcome"
  and storeWithFallbacks_Put ::
    "('c, 'p, 'b, 'w) env \<Rightarrow> ('p, 'b) Store list \<Rightarrow> 'c \<Rightarrow> string \<Rightarrow> Credential \<Rightarrow> 'w
      \<Rightarrow> (error option \<times> 'w) outcome"
where
  "Store_Put env (Backend b) ctx serverAddress cred w =
     Returns (backend_Put env b ctx serverAddress cred w)"
| "Store_Put env (StoreWithFallbacks stores) ctx serverAddress cred w =
     storeWithFallbacks_Put env stores ctx serverAddress cred w"
| "storeWithFallbacks_Put env stores ctx serverAddress cred w =
     (case index stores 0 of
        Panics \<Rightarrow> Panics
      | Returns s \<Rightarrow> Store_Put env s ctx serverAddress cred w)"
  by pat_completeness auto
termination
proof (relation "measure (\<lambda>x. case x of
          Inl (env, s, rest) \<Rightarrow> 2 * size s
        | Inr (env, stores, rest) \<Rightarrow> 2 * size_list size stores + 1)", goal_cases)
  case 1
  show ?case by simp
next
  case 2
  show ?case by simp
next
  case (3 env stores ctx serverAddress cred w s)
  then have "s \<in> set stores" by (auto simp: index_def split: if_splits)
  then have "size s \<le> size_list size stores" by (induction stores) auto
  then show ?case by simp
qed

function Store_Delete ::
    "('c, 'p, 'b, 'w) env \<Rightarrow> ('p, 'b) Store \<Rightarrow> 'c \<Rightarrow> string \<Rightarrow> 'w
      \<Rightarrow> (error option \<times> 'w) outcome"
  and storeWithFallbacks_Delete ::
    "('c, 'p, 'b, 'w) env \<Rightarrow> ('p, 'b) Store list \<Rightarrow> 'c \<Rightarrow> string \<Rightarrow> 'w
      \<Rightarrow> (error option \<times> 'w) outcome"
where
  "Store_Delete env (Backend b) ctx serverAddress w =
     Returns (backend_Delete env b ctx serverAddress w)"
| "Store_Delete env (StoreWithFallbacks stores) ctx serverAddress w =
     storeWithFallbacks_Delete env stores ctx serverAddress w"
| "storeWithFallbacks_Delete env stores ctx serverAddress w =
     (case index stores 0 of
        Panics \<Rightarrow> Panics
      | Returns s \<Rightarrow> Store_Delete env s ctx serverAddress w)"
  by pat_completeness auto
termination
proof (relation "measure (\<lambda>x. case x of
          Inl (env, s, rest) \<Rightarrow> 2 * size s
        | Inr (env, stores, rest) \<Rightarrow> 2 * size_list size stores + 1)", goal_cases)
  case 1
  show ?case by simp
next
  case 2
  show ?case by simp
next
  case (3 env stores ctx serverAddress w s)
  then have "s \<in> set stores" by (auto simp: index_def split: if_splits)
  then have "size s \<le> size_list size stores" by (induction stores) auto
  then show ?case by simp
qed

definition NewStoreWithFallbacks ::
    "('p, 'b) Store \<Rightarrow> ('p, 'b) Store list \<Rightarrow> ('p, 'b) Store" where
  "NewStoreWithFallbacks primary fallbacks =
     (if length fallbacks = 0 then primary
      else StoreWithFallbacks ([primary] @ fallbacks))"

section \<open>dynamicStore\<close>

record StoreOptions =
  AllowPlaintextPut :: bool

text \<open>
  \<^verbatim>\<open>sync.Once\<close>, as one caller at a time sees it: \<^verbatim>\<open>Do(f)\<close> runs \<open>f\<close> if no call of
  \<^verbatim>\<open>Do\<close> on this value has run before, and does nothing otherwise. \<open>f\<close> works on the
  variables it captures, here the state \<open>'s\<close>.
\<close>

record Once =
  done_flag :: bool

definition Once_Do :: "Once \<Rightarrow> ('s \<Rightarrow> 's) \<Rightarrow> 's \<Rightarrow> Once \<times> 's" where
  "Once_Do once f s =
     (if done_flag once then (once, s) else (once\<lparr>done_flag := True\<rparr>, f s))"

record 'p dynamicStore =
  config :: 'p
  options :: StoreOptions
  detectedCredsStore :: string
  setCredsStoreOnce :: Once

definition NewStore ::
    "('c, 'p, 'b, 'w) env \<Rightarrow> string \<Rightarrow> StoreOptions \<Rightarrow> 'w
      \<Rightarrow> (error + 'p dynamicStore) \<times> 'w" where
  "NewStore env configPath opts w =
     (case config_Load env configPath w of
        (Inl err, w') \<Rightarrow> (Inl err, w')
      | (Inr cfg, w') \<Rightarrow>
          (let ds = \<lparr>config = cfg, options = opts, detectedCredsStore = [],
                     setCredsStoreOnce = \<lparr>done_flag = False\<rparr>\<rparr>
           in if \<not> IsAuthConfigured env cfg w'
              then (Inr (ds\<lparr>detectedCredsStore := getDefaultHelperSuffix env w'\<rparr>), w')
              else (Inr ds, w')))"

definition getHelperSuffix ::
    "('c, 'p, 'b, 'w) env \<Rightarrow> 'p dynamicStore \<Rightarrow> string \<Rightarrow> 'w \<Rightarrow> string" where
  "getHelperSuffix env ds serverAddress w =
     (let helper = GetCredentialHelper env (config ds) serverAddress w
      in if helper \<noteq> [] then helper
         else (let credsStore = CredentialsStore env (config ds) w
               in if credsStore \<noteq> [] then credsStore
                  else detectedCredsStore ds))"

definition getStore ::
    "('c, 'p, 'b, 'w) env \<Rightarrow> 'p dynamicStore \<Rightarrow> string \<Rightarrow> 'w \<Rightarrow> ('p, 'b) Store" where
  "getStore env ds serverAddress w =
     (let helper = getHelperSuffix env ds serverAddress w
      in if helper \<noteq> [] then NewNativeStore helper
         else (let fs = newFileStore (config ds)
               in Backend (FileStoreOf
                    (fs\<lparr>DisablePut := \<not> AllowPlaintextPut (options ds)\<rparr>))))"

definition dynamicStore_Get ::
    "('c, 'p, 'b, 'w) env \<Rightarrow> 'p dynamicStore \<Rightarrow> 'c \<Rightarrow> string \<Rightarrow> 'w
      \<Rightarrow> (Credential \<times> error option) \<times> 'w" where
  "dynamicStore_Get env ds ctx serverAddress w =
     Store_Get env (getStore env ds serverAddress w) ctx serverAddress w"

text \<open>
  The function literal handed to \<^verbatim>\<open>setCredsStoreOnce.Do\<close>: it works on the named
  result \<^verbatim>\<open>returnErr\<close> and on the outside state.
\<close>

definition saveDetected ::
    "('c, 'p, 'b, 'w) env \<Rightarrow> 'p dynamicStore \<Rightarrow> error option \<times> 'w \<Rightarrow> error option \<times> 'w"
  where
  "saveDetected env ds = (\<lambda>(returnErr, w).
     if detectedCredsStore ds \<noteq> [] then
       (case SetCredentialsStore env (config ds) (detectedCredsStore ds) w of
          (Some err, w') \<Rightarrow> (Some (Errorf_w ''failed to set credsStore: '' err), w')
        | (None, w') \<Rightarrow> (returnErr, w'))
     else (returnErr, w))"

text \<open>
  \<^verbatim>\<open>Put\<close> has a pointer receiver: the result carries the resolver as the call leaves
  it, next to the returned error and the outside state.
\<close>

definition dynamicStore_Put ::
    "('c, 'p, 'b, 'w) env \<Rightarrow> 'p dynamicStore \<Rightarrow> 'c \<Rightarrow> string \<Rightarrow> Credential \<Rightarrow> 'w
      \<Rightarrow> (error option \<times> 'p dynamicStore \<times> 'w) outcome" where
  "dynamicStore_Put env ds ctx serverAddress cred w =
     (case Store_Put env (getStore env ds serverAddress w) ctx serverAddress cred w of
        Panics \<Rightarrow> Panics
      | Returns (Some err, w') \<Rightarrow> Returns (Some err, ds, w')
      | Returns (None, w') \<Rightarrow>
          (case Once_Do (setCredsStoreOnce ds) (saveDetected env ds) (None, w') of
             (once, (returnErr, w'')) \<Rightarrow>
               Returns (returnErr, ds\<lparr>setCredsStoreOnce := once\<rparr>, w'')))"

definition dynamicStore_Delete ::
    "('c, 'p, 'b, 'w) env \<Rightarrow> 'p dynamicStore \<Rightarrow> 'c \<Rightarrow> string \<Rightarrow> 'w
      \<Rightarrow> (error option \<times> 'w) outcome" where
  "dynamicStore_Delete env ds ctx serverAddress w =
     Store_Delete env (getStore env ds serverAddress w) ctx serverAddress w"

section \<open>Callers and call histories\<close>

text \<open>
  A caller of a resolver issues requests one after the other. \<open>serve\<close> runs them in
  order on the resolver, threading the resolver and the outside state, and collects
  the answers.
\<close>

datatype 'c request =
    GetRequest 'c string
  | PutRequest 'c string Credential
  | DeleteRequest 'c string

datatype answer =
    GetAnswer Credential "error option"
  | PutAnswer "error option"
  | DeleteAnswer "error option"

fun serve ::
    "('c, 'p, 'b, 'w) env \<Rightarrow> 'p dynamicStore \<Rightarrow> 'c request list \<Rightarrow> 'w
      \<Rightarrow> (answer list \<times> 'p dynamicStore \<times> 'w) outcome" where
  "serve env ds [] w = Returns ([], ds, w)"
| "serve env ds (GetRequest ctx a # rs) w =
     (case dynamicStore_Get env ds ctx a w of
        ((cred, err), w') \<Rightarrow>
          (case serve env ds rs w' of
             Panics \<Rightarrow> Panics
           | Returns (ans, ds', w'') \<Rightarrow> Returns (GetAnswer cred err # ans, ds', w'')))"
| "serve env ds (PutRequest ctx a cred # rs) w =
     (case dynamicStore_Put env ds ctx a cred w of
        Panics \<Rightarrow> Panics
      | Returns (err, ds1, w') \<Rightarrow>
          (case serve env ds1 rs w' of
             Panics \<Rightarrow> Panics
           | Returns (ans, ds', w'') \<Rightarrow> Returns (PutAnswer err # ans, ds', w'')))"
| "serve env ds (DeleteRequest ctx a # rs) w =
     (case dynamicStore_Delete env ds ctx a w of
        Panics \<Rightarrow> Panics
      | Returns (err, w') \<Rightarrow>
          (case serve env ds rs w' of
             Panics \<Rightarrow> Panics
           | Returns (ans, ds', w'') \<Rightarrow> Returns (DeleteAnswer err # ans, ds', w'')))"

text \<open>
  To speak about which collaborator calls an operation makes, the outside state is
  paired with a history, and \<open>traced env\<close> is the environment that behaves as \<open>env\<close>
  on the first component and appends every state-changing call, with what it
  returned, to the second. No operation reads the history.
\<close>

datatype ('p, 'b) call =
    GetCall "('p, 'b) backend" string Credential "error option"
  | PutCall "('p, 'b) backend" string Credential "error option"
  | DeleteCall "('p, 'b) backend" string "error option"
  | SetCredentialsStoreCall 'p string "error option"

definition traced ::
    "('c, 'p, 'b, 'w) env \<Rightarrow> ('c, 'p, 'b, 'w \<times> ('p, 'b) call list) env" where
  "traced env =
     \<lparr>config_Load = (\<lambda>path (w, h).
        case config_Load env path w of (r, w') \<Rightarrow> (r, (w', h))),
      IsAuthConfigured = (\<lambda>cfg (w, h). IsAuthConfigured env cfg w),
      GetCredentialHelper = (\<lambda>cfg a (w, h). GetCredentialHelper env cfg a w),
      CredentialsStore = (\<lambda>cfg (w, h). CredentialsStore env cfg w),
      SetCredentialsStore = (\<lambda>cfg name (w, h).
        case SetCredentialsStore env cfg name w of
          (err, w') \<Rightarrow> (err, (w', h @ [SetCredentialsStoreCall cfg name err]))),
      getDefaultHelperSuffix = (\<lambda>(w, h). getDefaultHelperSuffix env w),
      backend_Get = (\<lambda>b ctx a (w, h).
        case backend_Get env b ctx a w of
          ((cred, err), w') \<Rightarrow> ((cred, err), (w', h @ [GetCall b a cred err]))),
      backend_Put = (\<lambda>b ctx a cred (w, h).
        case backend_Put env b ctx a cred w of
          (err, w') \<Rightarrow> (err, (w', h @ [PutCall b a cred err]))),
      backend_Delete = (\<lambda>b ctx a (w, h).
        case backend_Delete env b ctx a w of
          (err, w') \<Rightarrow> (err, (w', h @ [DeleteCall b a err])))\<rparr>"

fun is_SetCredentialsStoreCall :: "('p, 'b) call \<Rightarrow> bool" where
  "is_SetCredentialsStoreCall (SetCredentialsStoreCall cfg name err) = True"
| "is_SetCredentialsStoreCall _ = False"

text \<open>
  \<open>persists h\<close> counts the calls of \<^verbatim>\<open>SetCredentialsStore\<close> in a history.
\<close>

definition persists :: "('p, 'b) call list \<Rightarrow> nat" where
  "persists h = length (filter is_SetCredentialsStoreCall h)"

text \<open>
  \<open>only_after_put ok h\<close>: every call of \<^verbatim>\<open>SetCredentialsStore\<close> in \<open>h\<close> comes right
  after a backend \<^verbatim>\<open>Put\<close> that returned nil (\<open>ok\<close> says whether the call before the
  head of \<open>h\<close> was one).
\<close>

fun only_after_put :: "bool \<Rightarrow> ('p, 'b) call list \<Rightarrow> bool" where
  "only_after_put ok [] = True"
| "only_after_put ok (SetCredentialsStoreCall cfg name err # h) =
     (ok \<and> only_after_put False h)"
| "only_after_put ok (PutCall b a cred err # h) = only_after_put (err = None) h"
| "only_after_put ok (GetCall b a cred err # h) = only_after_put False h"
| "only_after_put ok (DeleteCall b a err # h) = only_after_put False h"

section \<open>The selection order as the specification words it\<close>

text \<open>
  The four steps of the specification, written down independently of \<open>getStore\<close>:
  the per-address helper, else the global helper, else the detected default, else the
  plaintext file store with \<open>disablePut = \<not> allowPlaintextPut\<close>.
\<close>

definition spec_selected_backend ::
    "('c, 'p, 'b, 'w) env \<Rightarrow> 'p dynamicStore \<Rightarrow> string \<Rightarrow> 'w \<Rightarrow> ('p, 'b) backend" where
  "spec_selected_backend env ds serverAddress w =
     (if GetCredentialHelper env (config ds) serverAddress w \<noteq> []
        then NativeStore (GetCredentialHelper env (config ds) serverAddress w)
      else if CredentialsStore env (config ds) w \<noteq> []
        then NativeStore (CredentialsStore env (config ds) w)
      else if detectedCredsStore ds \<noteq> []
        then NativeStore (detectedCredsStore ds)
      else FileStoreOf \<lparr>DisablePut = \<not> AllowPlaintextPut (options ds),
                         fs_config = config ds\<rparr>)"

section \<open>Reading a fallback chain\<close>

text \<open>
  \<open>skipped env stores ctx a w = Some w'\<close>: every store of the list, asked in order
  for \<open>a\<close> starting in state \<open>w\<close>, answers the empty credential and no error, and
  \<open>w'\<close> is the state they leave behind; \<open>None\<close> if one of them answers otherwise.
\<close>

fun skipped ::
    "('c, 'p, 'b, 'w) env \<Rightarrow> ('p, 'b) Store list \<Rightarrow> 'c \<Rightarrow> string \<Rightarrow> 'w \<Rightarrow> 'w option" where
  "skipped env [] ctx a w = Some w"
| "skipped env (s # stores) ctx a w =
     (case Store_Get env s ctx a w of
        ((cred, err), w') \<Rightarrow>
          if err = None \<and> cred = EmptyCredential then skipped env stores ctx a w'
          else None)"

section \<open>Racing calls of Put\<close>

text \<open>
  Several calls of \<^verbatim>\<open>Put\<close> on one resolver, run by different goroutines, as an
  interleaving of atomic steps. Each call is at one of these points:
  \<^item> \<open>AtPut\<close>: before the backend \<^verbatim>\<open>Put\<close>;
  \<^item> \<open>AtDo\<close>: the backend returned nil, the call is at \<^verbatim>\<open>setCredsStoreOnce.Do\<close>;
  \<^item> \<open>InDo\<close>: the call holds the mutex of the \<^verbatim>\<open>Once\<close> and runs the function literal;
  \<^item> \<open>Failed err\<close>: the call has returned the backend's error;
  \<^item> \<open>Returned returnErr\<close>: the call has returned after \<^verbatim>\<open>Do\<close>;
  \<^item> \<open>Crashed\<close>: the call panicked.

  \<^verbatim>\<open>sync.Once\<close> is taken by its documented contract: \<^verbatim>\<open>Do\<close> returns at once when the
  \<^verbatim>\<open>Once\<close> is done; otherwise one caller at a time gets the mutex, runs the function
  and marks the \<^verbatim>\<open>Once\<close> done, and a caller that finds the mutex taken waits (it has no
  step). Choosing the backend and calling its \<^verbatim>\<open>Put\<close> count as one step, and so does
  running the function handed to \<^verbatim>\<open>Do\<close>, config write included.
\<close>

datatype pc = AtPut | AtDo | InDo | Failed error | Returned "error option" | Crashed

record 'w racing =
  pcs :: "pc list"
  once_done :: bool
  once_holder :: "nat option"
  outside :: 'w

text \<open>
  \<open>advance env ds puts i st\<close> lets call number \<open>i\<close> take its next step; \<open>puts\<close> holds
  the arguments of the calls. A call that is waiting or has ended leaves the state as
  it is.
\<close>

definition advance ::
    "('c, 'p, 'b, 'w) env \<Rightarrow> 'p dynamicStore \<Rightarrow> ('c \<times> string \<times> Credential) list \<Rightarrow> nat
      \<Rightarrow> 'w racing \<Rightarrow> 'w racing" where
  "advance env ds puts i st =
     (if i < length (pcs st) \<and> i < length puts then
        (case pcs st ! i of
           AtPut \<Rightarrow>
             (case puts ! i of (ctx, serverAddress, cred) \<Rightarrow>
                (case Store_Put env (getStore env ds serverAddress (outside st)) ctx
                        serverAddress cred (outside st) of
                   Panics \<Rightarrow> st\<lparr>pcs := (pcs st)[i := Crashed]\<rparr>
                 | Returns (Some err, w') \<Rightarrow>
                     st\<lparr>pcs := (pcs st)[i := Failed err], outside := w'\<rparr>
                 | Returns (None, w') \<Rightarrow>
                     st\<lparr>pcs := (pcs st)[i := AtDo], outside := w'\<rparr>))
         | AtDo \<Rightarrow>
             if once_done st then st\<lparr>pcs := (pcs st)[i := Returned None]\<rparr>
             else if once_holder st = None
               then st\<lparr>pcs := (pcs st)[i := InDo], once_holder := Some i\<rparr>
             else st
         | InDo \<Rightarrow>
             (case saveDetected env ds (None, outside st) of
                (returnErr, w') \<Rightarrow>
                  st\<lparr>pcs := (pcs st)[i := Returned returnErr], once_done := True,
                     once_holder := None, outside := w'\<rparr>)
         | Failed err \<Rightarrow> st
         | Returned returnErr \<Rightarrow> st
         | Crashed \<Rightarrow> st)
      else st)"

fun interleave ::
    "('c, 'p, 'b, 'w) env \<Rightarrow> 'p dynamicStore \<Rightarrow> ('c \<times> string \<times> Credential) list \<Rightarrow> nat list
      \<Rightarrow> 'w racing \<Rightarrow> 'w racing" where
  "interleave env ds puts [] st = st"
| "interleave env ds puts (i # schedule) st =
     interleave env ds puts schedule (advance env ds puts i st)"

definition racing_start :: "'p dynamicStore \<Rightarrow> nat \<Rightarrow> 'w \<Rightarrow> 'w racing" where
  "racing_start ds n w =
     \<lparr>pcs = replicate n AtPut, once_done = done_flag (setCredsStoreOnce ds),
      once_holder = None, outside = w\<rparr>"

text \<open>What every interleaving keeps true, for \<open>n\<close> calls started on history \<open>h\<close>.\<close>

definition racing_inv ::
    "'p dynamicStore \<Rightarrow> nat \<Rightarrow> ('p, 'b) call list \<Rightarrow> ('w \<times> ('p, 'b) call list) racing
      \<Rightarrow> bool" where
  "racing_inv ds n h st \<longleftrightarrow>
     length (pcs st) = n \<and>
     (\<forall>i. once_holder st = Some i \<longrightarrow> i < n \<and> pcs st ! i = InDo) \<and>
     (\<forall>i. i < n \<and> pcs st ! i = InDo \<longrightarrow> once_holder st = Some i) \<and>
     (once_holder st \<noteq> None \<longrightarrow> \<not> once_done st) \<and>
     (done_flag (setCredsStoreOnce ds) \<longrightarrow> once_done st) \<and>
     (\<forall>i r. i < n \<and> pcs st ! i = Returned r \<longrightarrow> once_done st) \<and>
     (\<forall>i. i < n \<longrightarrow> pcs st ! i \<noteq> Crashed) \<and>
     (\<exists>calls. snd (outside st) = h @ calls \<and>
        persists calls =
          (if once_done st \<and> \<not> done_flag (setCredsStoreOnce ds)
              \<and> detectedCredsStore ds \<noteq> []
           then 1 else 0))"

text \<open>
  The steps a call still has to take, at most: the backend write, entering \<^verbatim>\<open>Do\<close>,
  running the function. \<open>work_left\<close> adds them up over all calls.
\<close>

fun steps_left :: "pc \<Rightarrow> nat" where
  "steps_left AtPut = 3"
| "steps_left AtDo = 2"
| "steps_left InDo = 1"
| "steps_left (Failed err) = 0"
| "steps_left (Returned returnErr) = 0"
| "steps_left Crashed = 0"

definition work_left :: "'w racing \<Rightarrow> nat" where
  "work_left st = sum_list (map steps_left (pcs st))"

text \<open>
  \<open>backend_accepts env ds put\<close>: the backend write of the call \<open>put\<close> returns nil,
  whatever the state it is made in.
\<close>

definition backend_accepts ::
    "('c, 'p, 'b, 'w) env \<Rightarrow> 'p dynamicStore \<Rightarrow> 'c \<times> string \<times> Credential \<Rightarrow> bool" where
  "backend_accepts env ds put =
     (case put of (ctx, serverAddress, cred) \<Rightarrow>
        \<forall>w. \<exists>w'. Store_Put env (getStore env ds serverAddress w) ctx serverAddress cred w
                  = Returns (None, w'))"

section \<open>Chains as the constructor builds them\<close>

text \<open>
  \<open>well_built s\<close>: every \<^verbatim>\<open>*storeWithFallbacks\<close> inside \<open>s\<close> has at least two stores,
  as every composite that \<^verbatim>\<open>NewStoreWithFallbacks\<close> allocates has.
\<close>

fun well_built :: "('p, 'b) Store \<Rightarrow> bool" where
  "well_built (Backend b) = True"
| "well_built (StoreWithFallbacks stores) =
     (2 \<le> length stores \<and> list_all well_built stores)"

section \<open>A small deployment for concrete runs\<close>

text \<open>
  Contexts are trivial, a config is named by its path and other stores are numbered.
  The outside state is the global helper the config holds, with the number of writes
  made so far. The config has the per-address helper \<^verbatim>\<open>helper-a\<close> for
  \<^verbatim>\<open>registry.example.com\<close> if \<open>with_helper\<close>; asked to save a global helper it sets it
  and answers \<open>persist_result\<close>. The platform default is \<^verbatim>\<open>pass\<close>. Store 0 holds
  nothing, store 1 holds \<open>cred_X\<close>, store 2 holds \<open>cred_Y\<close>, every other numbered store
  fails with \<^verbatim>\<open>E\<close>; writes to \<^verbatim>\<open>down.example.com\<close> fail.
\<close>

definition cred_X :: Credential where
  "cred_X = \<lparr>Username = ''x'', Password = ''secret-x'', RefreshToken = [], AccessToken = []\<rparr>"

definition cred_Y :: Credential where
  "cred_Y = \<lparr>Username = ''y'', Password = ''secret-y'', RefreshToken = [], AccessToken = []\<rparr>"

definition example_env ::
    "bool \<Rightarrow> error option \<Rightarrow> (unit, string, nat, string \<times> nat) env" where
  "example_env with_helper persist_result =
     \<lparr>config_Load = (\<lambda>path w. (Inr path, w)),
      IsAuthConfigured = (\<lambda>cfg (global, n). with_helper \<or> global \<noteq> []),
      GetCredentialHelper = (\<lambda>cfg a w.
        if with_helper \<and> a = ''registry.example.com'' then ''helper-a'' else []),
      CredentialsStore = (\<lambda>cfg (global, n). global),
      SetCredentialsStore = (\<lambda>cfg name (global, n). (persist_result, (name, Suc n))),
      getDefaultHelperSuffix = (\<lambda>w. ''pass''),
      backend_Get = (\<lambda>b ctx a w.
        case b of
          OtherStore n \<Rightarrow>
            if n = 0 then ((EmptyCredential, None), w)
            else if n = 1 then ((cred_X, None), w)
            else if n = 2 then ((cred_Y, None), w)
            else ((cred_X, Some (Err ''E'')), w)
        | _ \<Rightarrow> ((EmptyCredential, None), w)),
      backend_Put = (\<lambda>b ctx a cred (global, n).
        if a = ''down.example.com'' then (Some (Err ''backend unreachable''), (global, n))
        else (None, (global, Suc n))),
      backend_Delete = (\<lambda>b ctx a (global, n). (None, (global, Suc n)))\<rparr>"

definition example_options :: StoreOptions where
  "example_options = \<lparr>AllowPlaintextPut = False\<rparr>"

text \<open>The resolver \<^verbatim>\<open>NewStore\<close> returns when no authentication is configured.\<close>

definition fresh_resolver :: "string dynamicStore" where
  "fresh_resolver =
     \<lparr>config = ''config.json'', options = example_options, detectedCredsStore = ''pass'',
      setCredsStoreOnce = \<lparr>done_flag = False\<rparr>\<rparr>"

text \<open>The resolver \<^verbatim>\<open>NewStore\<close> returns when authentication is configured.\<close>

definition configured_resolver :: "string dynamicStore" where
  "configured_resolver =
     \<lparr>config = ''config.json'', options = example_options, detectedCredsStore = [],
      setCredsStoreOnce = \<lparr>done_flag = False\<rparr>\<rparr>"

text \<open>Two calls of \<^verbatim>\<open>Put\<close> for the same address, to be run against each other.\<close>

definition two_puts :: "(unit \<times> string \<times> Credential) list" where
  "two_puts = [((), ''r.io'', cred_X), ((), ''r.io'', cred_Y)]"

section \<open>Properties of the fallback chain\<close>

lemma index_0_Cons: "index (s # stores) 0 = Returns s"
  by (simp add: index_def)

lemma index_0_Nil: "index [] 0 = Panics"
  by (simp add: index_def)

lemma storeWithFallbacks_Put_Cons:
  "storeWithFallbacks_Put env (s # stores) ctx a cred w = Store_Put env s ctx a cred w"
  by (simp add: index_0_Cons)

lemma storeWithFallbacks_Delete_Cons:
  "storeWithFallbacks_Delete env (s # stores) ctx a w = Store_Delete env s ctx a w"
  by (simp add: index_0_Cons)

lemma skipped_append_Get:
  "skipped env pre ctx a w = Some w1 \<Longrightarrow>
   storeWithFallbacks_Get env (pre @ rest) ctx a w = storeWithFallbacks_Get env rest ctx a w1"
proof (induction pre arbitrary: w)
  case Nil
  then show ?case by simp
next
  case (Cons s pre)
  obtain cred err w' where g: "Store_Get env s ctx a w = ((cred, err), w')"
    by (metis prod.exhaust)
  with Cons.prems have e: "err = None" "cred = EmptyCredential" and k: "skipped env pre ctx a w' = Some w1"
    by (auto split: if_splits)
  from Cons.IH [OF k] g e show ?case by simp
qed

lemma Get_stops_at_error:
  "Store_Get env s ctx a w = ((cred, Some err), w') \<Longrightarrow>
   storeWithFallbacks_Get env (s # rest) ctx a w = ((EmptyCredential, Some err), w')"
  by simp

lemma Get_stops_at_credential:
  "Store_Get env s ctx a w = ((cred, None), w') \<Longrightarrow> cred \<noteq> EmptyCredential \<Longrightarrow>
   storeWithFallbacks_Get env (s # rest) ctx a w = ((cred, None), w')"
  by simp

text \<open>
  The cases are exhaustive: either every store of a chain is skipped, or the chain
  splits at the first store that answers with an error or a credential.
\<close>

lemma skipped_or_split:
  "(\<exists>w'. skipped env stores ctx a w = Some w') \<or>
   (\<exists>pre s rest w1 cred err w2.
      stores = pre @ s # rest \<and> skipped env pre ctx a w = Some w1 \<and>
      Store_Get env s ctx a w1 = ((cred, err), w2) \<and>
      (err \<noteq> None \<or> cred \<noteq> EmptyCredential))"
proof (induction stores arbitrary: w)
  case Nil
  show ?case by simp
next
  case (Cons s stores)
  obtain cred err w' where g: "Store_Get env s ctx a w = ((cred, err), w')"
    by (metis prod.exhaust)
  show ?case
  proof (cases "err = None \<and> cred = EmptyCredential")
    case False
    with g have "s # stores = [] @ s # stores \<and> skipped env [] ctx a w = Some w \<and>
        Store_Get env s ctx a w = ((cred, err), w') \<and> (err \<noteq> None \<or> cred \<noteq> EmptyCredential)"
      by simp
    then show ?thesis by blast
  next
    case True
    from Cons.IH [of w'] show ?thesis
    proof
      assume "\<exists>w''. skipped env stores ctx a w' = Some w''"
      with g True show ?thesis by simp
    next
      assume "\<exists>pre s' rest w1 cred' err' w2.
        stores = pre @ s' # rest \<and> skipped env pre ctx a w' = Some w1 \<and>
        Store_Get env s' ctx a w1 = ((cred', err'), w2) \<and>
        (err' \<noteq> None \<or> cred' \<noteq> EmptyCredential)"
      then obtain pre s' rest w1 cred' err' w2 where
        "stores = pre @ s' # rest" "skipped env pre ctx a w' = Some w1"
        "Store_Get env s' ctx a w1 = ((cred', err'), w2)"
        "err' \<noteq> None \<or> cred' \<noteq> EmptyCredential"
        by blast
      with g True have "s # stores = (s # pre) @ s' # rest \<and>
          skipped env (s # pre) ctx a w = Some w1 \<and>
          Store_Get env s' ctx a w1 = ((cred', err'), w2) \<and>
          (err' \<noteq> None \<or> cred' \<noteq> EmptyCredential)"
        by simp
      then show ?thesis by blast
    qed
  qed
qed

lemma traced_simps [simp]:
  "config_Load (traced env) path (w, h) =
     (case config_Load env path w of (r, w') \<Rightarrow> (r, (w', h)))"
  "IsAuthConfigured (traced env) cfg (w, h) = IsAuthConfigured env cfg w"
  "GetCredentialHelper (traced env) cfg a (w, h) = GetCredentialHelper env cfg a w"
  "CredentialsStore (traced env) cfg (w, h) = CredentialsStore env cfg w"
  "SetCredentialsStore (traced env) cfg name (w, h) =
     (case SetCredentialsStore env cfg name w of
        (err, w') \<Rightarrow> (err, (w', h @ [SetCredentialsStoreCall cfg name err])))"
  "getDefaultHelperSuffix (traced env) (w, h) = getDefaultHelperSuffix env w"
  "backend_Get (traced env) b ctx a (w, h) =
     (case backend_Get env b ctx a w of
        ((cred, err), w') \<Rightarrow> ((cred, err), (w', h @ [GetCall b a cred err])))"
  "backend_Put (traced env) b ctx a cred (w, h) =
     (case backend_Put env b ctx a cred w of
        (err, w') \<Rightarrow> (err, (w', h @ [PutCall b a cred err])))"
  "backend_Delete (traced env) b ctx a (w, h) =
     (case backend_Delete env b ctx a w of
        (err, w') \<Rightarrow> (err, (w', h @ [DeleteCall b a err])))"
  by (simp_all add: traced_def)

lemma example_env_simps [simp]:
  "config_Load (example_env with_helper persist_result) path w = (Inr path, w)"
  "IsAuthConfigured (example_env with_helper persist_result) cfg (global, n) =
     (with_helper \<or> global \<noteq> [])"
  "GetCredentialHelper (example_env with_helper persist_result) cfg a w =
     (if with_helper \<and> a = ''registry.example.com'' then ''helper-a'' else [])"
  "CredentialsStore (example_env with_helper persist_result) cfg (global, n) = global"
  "SetCredentialsStore (example_env with_helper persist_result) cfg name (global, n) =
     (persist_result, (name, Suc n))"
  "getDefaultHelperSuffix (example_env with_helper persist_result) w = ''pass''"
  "backend_Get (example_env with_helper persist_result) b ctx a w =
     (case b of
        OtherStore n \<Rightarrow>
          if n = 0 then ((EmptyCredential, None), w)
          else if n = 1 then ((cred_X, None), w)
          else if n = 2 then ((cred_Y, None), w)
          else ((cred_X, Some (Err ''E'')), w)
      | _ \<Rightarrow> ((EmptyCredential, None), w))"
  "backend_Put (example_env with_helper persist_result) b ctx a cred (global, n) =
     (if a = ''down.example.com'' then (Some (Err ''backend unreachable''), (global, n))
      else (None, (global, Suc n)))"
  "backend_Delete (example_env with_helper persist_result) b ctx a (global, n) =
     (None, (global, Suc n))"
  by (simp_all add: example_env_def)

lemma cred_X_not_empty: "cred_X \<noteq> EmptyCredential"
  by (simp add: cred_X_def EmptyCredential_def)

text \<open>
  C3. Reading a chain stops at the first store whose \<^verbatim>\<open>Get\<close> returns an error. If the
  stores \<open>pre\<close> in front of \<open>s\<close> answer empty without error, leaving state \<open>w1\<close>, and
  \<open>s\<close> then answers with the error \<open>err\<close>, next to any credential \<open>cred\<close>, leaving
  state \<open>w2\<close>, then the chain returns the empty credential with \<open>err\<close>: \<open>cred\<close> is
  dropped. The final state is \<open>w2\<close>, the one the failing call left, whatever the
  stores \<open>rest\<close> behind it are: none of them is called. This holds for the method on
  the slice and for the call through the interface.
\<close>

theorem fallback_Get_stops_at_first_error:
  assumes "skipped env pre ctx a w = Some w1"
    and "Store_Get env s ctx a w1 = ((cred, Some err), w2)"
  shows "storeWithFallbacks_Get env (pre @ s # rest) ctx a w = ((EmptyCredential, Some err), w2)
       \<and> Store_Get env (StoreWithFallbacks (pre @ s # rest)) ctx a w =
           ((EmptyCredential, Some err), w2)"
proof -
  have "storeWithFallbacks_Get env (pre @ s # rest) ctx a w =
      storeWithFallbacks_Get env (s # rest) ctx a w1"
    using assms(1) by (rule skipped_append_Get)
  also have "\<dots> = ((EmptyCredential, Some err), w2)"
    using assms(2) by (rule Get_stops_at_error)
  finally show ?thesis by simp
qed

text \<open>
  The chain [store 0 (empty), store 7 (fails with E, next to a credential), store 1
  (holds X)] read with call history: the history ends with the call of store 7.
\<close>

theorem fallback_Get_stops_at_first_error_witness:
  "skipped (traced (example_env False None)) [Backend (OtherStore 0)] () ''r.io'' (([], 0), [])
     = Some (([], 0), [GetCall (OtherStore 0) ''r.io'' EmptyCredential None])
   \<and> Store_Get (traced (example_env False None)) (Backend (OtherStore 7)) () ''r.io''
       (([], 0), [GetCall (OtherStore 0) ''r.io'' EmptyCredential None])
     = ((cred_X, Some (Err ''E'')),
        (([], 0), [GetCall (OtherStore 0) ''r.io'' EmptyCredential None,
             GetCall (OtherStore 7) ''r.io'' cred_X (Some (Err ''E''))]))
   \<and> storeWithFallbacks_Get (traced (example_env False None))
       ([Backend (OtherStore 0)] @ Backend (OtherStore 7) # [Backend (OtherStore 1)])
       () ''r.io'' (([], 0), [])
     = ((EmptyCredential, Some (Err ''E'')),
        (([], 0), [GetCall (OtherStore 0) ''r.io'' EmptyCredential None,
             GetCall (OtherStore 7) ''r.io'' cred_X (Some (Err ''E''))]))"
proof -
  have h1: "skipped (traced (example_env False None)) [Backend (OtherStore 0)] () ''r.io''
      (([], 0), []) = Some (([], 0), [GetCall (OtherStore 0) ''r.io'' EmptyCredential None])"
    by simp
  have h2: "Store_Get (traced (example_env False None)) (Backend (OtherStore 7)) () ''r.io''
       (([], 0), [GetCall (OtherStore 0) ''r.io'' EmptyCredential None])
     = ((cred_X, Some (Err ''E'')),
        (([], 0), [GetCall (OtherStore 0) ''r.io'' EmptyCredential None,
             GetCall (OtherStore 7) ''r.io'' cred_X (Some (Err ''E''))]))"
    by simp
  from fallback_Get_stops_at_first_error [OF h1 h2, of "[Backend (OtherStore 1)]"] h1 h2
  show ?thesis by blast
qed

text \<open>
  C4. Without an error, reading a chain returns the credential of the first store
  that holds one: if the stores \<open>pre\<close> answer empty without error, leaving \<open>w1\<close>, and
  \<open>s\<close> then answers the non-empty \<open>cred\<close> without error, leaving \<open>w2\<close>, the chain
  returns \<open>cred\<close> without error in state \<open>w2\<close>, whatever the stores \<open>rest\<close> behind
  \<open>s\<close> are: none of them is called. If every store of the chain answers empty
  without error, the chain returns the empty credential without error.
\<close>

theorem fallback_Get_first_credential:
  "(skipped env pre ctx a w = Some w1 \<and> Store_Get env s ctx a w1 = ((cred, None), w2)
      \<and> cred \<noteq> EmptyCredential
    \<longrightarrow> storeWithFallbacks_Get env (pre @ s # rest) ctx a w = ((cred, None), w2)
      \<and> Store_Get env (StoreWithFallbacks (pre @ s # rest)) ctx a w = ((cred, None), w2))
   \<and> (skipped env stores ctx a w = Some w'
    \<longrightarrow> storeWithFallbacks_Get env stores ctx a w = ((EmptyCredential, None), w')
      \<and> Store_Get env (StoreWithFallbacks stores) ctx a w = ((EmptyCredential, None), w'))"
proof (intro conjI impI)
  assume h: "skipped env pre ctx a w = Some w1 \<and>
    Store_Get env s ctx a w1 = ((cred, None), w2) \<and> cred \<noteq> EmptyCredential"
  then have "storeWithFallbacks_Get env (pre @ s # rest) ctx a w =
      storeWithFallbacks_Get env (s # rest) ctx a w1"
    by (simp add: skipped_append_Get)
  also have "\<dots> = ((cred, None), w2)"
    using h by (simp add: Get_stops_at_credential)
  finally show first: "storeWithFallbacks_Get env (pre @ s # rest) ctx a w = ((cred, None), w2)" .
  then show "Store_Get env (StoreWithFallbacks (pre @ s # rest)) ctx a w = ((cred, None), w2)"
    by simp
next
  assume h: "skipped env stores ctx a w = Some w'"
  then have "storeWithFallbacks_Get env (stores @ []) ctx a w =
      storeWithFallbacks_Get env [] ctx a w'"
    by (rule skipped_append_Get)
  then show none: "storeWithFallbacks_Get env stores ctx a w = ((EmptyCredential, None), w')"
    by simp
  then show "Store_Get env (StoreWithFallbacks stores) ctx a w = ((EmptyCredential, None), w')"
    by simp
qed

text \<open>
  The chain [store 0 (empty), store 1 (holds X), store 2 (holds Y)] returns X, and the
  history shows no call of store 2; the chain [store 0, store 0] returns empty.
\<close>

theorem fallback_Get_first_credential_witness:
  "(skipped (traced (example_env False None)) [Backend (OtherStore 0)] () ''r.io'' (([], 0), [])
      = Some (([], 0), [GetCall (OtherStore 0) ''r.io'' EmptyCredential None])
    \<and> Store_Get (traced (example_env False None)) (Backend (OtherStore 1)) () ''r.io''
        (([], 0), [GetCall (OtherStore 0) ''r.io'' EmptyCredential None])
      = ((cred_X, None),
         (([], 0), [GetCall (OtherStore 0) ''r.io'' EmptyCredential None,
              GetCall (OtherStore 1) ''r.io'' cred_X None]))
    \<and> cred_X \<noteq> EmptyCredential)
   \<and> storeWithFallbacks_Get (traced (example_env False None))
       ([Backend (OtherStore 0)] @ Backend (OtherStore 1) # [Backend (OtherStore 2)])
       () ''r.io'' (([], 0), [])
     = ((cred_X, None),
        (([], 0), [GetCall (OtherStore 0) ''r.io'' EmptyCredential None,
             GetCall (OtherStore 1) ''r.io'' cred_X None]))
   \<and> skipped (traced (example_env False None))
       [Backend (OtherStore 0), Backend (OtherStore 0)] () ''r.io'' (([], 0), [])
     = Some (([], 0), [GetCall (OtherStore 0) ''r.io'' EmptyCredential None,
                 GetCall (OtherStore 0) ''r.io'' EmptyCredential None])
   \<and> storeWithFallbacks_Get (traced (example_env False None))
       [Backend (OtherStore 0), Backend (OtherStore 0)] () ''r.io'' (([], 0), [])
     = ((EmptyCredential, None),
        (([], 0), [GetCall (OtherStore 0) ''r.io'' EmptyCredential None,
             GetCall (OtherStore 0) ''r.io'' EmptyCredential None]))"
proof -
  have h1: "skipped (traced (example_env False None)) [Backend (OtherStore 0)] () ''r.io''
      (([], 0), []) = Some (([], 0), [GetCall (OtherStore 0) ''r.io'' EmptyCredential None])
    \<and> Store_Get (traced (example_env False None)) (Backend (OtherStore 1)) () ''r.io''
        (([], 0), [GetCall (OtherStore 0) ''r.io'' EmptyCredential None])
      = ((cred_X, None),
         (([], 0), [GetCall (OtherStore 0) ''r.io'' EmptyCredential None,
              GetCall (OtherStore 1) ''r.io'' cred_X None]))
    \<and> cred_X \<noteq> EmptyCredential"
    by (simp add: cred_X_not_empty)
  have h2: "skipped (traced (example_env False None))
       [Backend (OtherStore 0), Backend (OtherStore 0)] () ''r.io'' (([], 0), [])
     = Some (([], 0), [GetCall (OtherStore 0) ''r.io'' EmptyCredential None,
                 GetCall (OtherStore 0) ''r.io'' EmptyCredential None])"
    by simp
  from fallback_Get_first_credential
    [of "traced (example_env False None)" "[Backend (OtherStore 0)]" "()" "''r.io''"
        "(([], 0), [])" "(([], 0), [GetCall (OtherStore 0) ''r.io'' EmptyCredential None])"
        "Backend (OtherStore 1)" cred_X
        "(([], 0), [GetCall (OtherStore 0) ''r.io'' EmptyCredential None,
              GetCall (OtherStore 1) ''r.io'' cred_X None])"
        "[Backend (OtherStore 2)]"
        "[Backend (OtherStore 0), Backend (OtherStore 0)]"
        "(([], 0), [GetCall (OtherStore 0) ''r.io'' EmptyCredential None,
              GetCall (OtherStore 0) ''r.io'' EmptyCredential None])"]
    h1 h2
  show ?thesis by blast
qed

text \<open>
  C5. \<^verbatim>\<open>Put\<close> and \<^verbatim>\<open>Delete\<close> of a chain are those of its primary store, with the same
  result and the same final state, whatever and however many the fallbacks are. This
  holds for what \<^verbatim>\<open>NewStoreWithFallbacks\<close> returns and for the methods on a slice that
  starts with the primary. With the call history: when the primary is the backend
  \<open>b\<close>, the history grows by exactly one call, the one on \<open>b\<close>.
\<close>

theorem fallback_Put_Delete_primary_only:
  "Store_Put env (NewStoreWithFallbacks primary fallbacks) ctx a cred w =
     Store_Put env primary ctx a cred w
   \<and> Store_Delete env (NewStoreWithFallbacks primary fallbacks) ctx a w =
     Store_Delete env primary ctx a w
   \<and> storeWithFallbacks_Put env (primary # fallbacks) ctx a cred w =
     Store_Put env primary ctx a cred w
   \<and> storeWithFallbacks_Delete env (primary # fallbacks) ctx a w =
     Store_Delete env primary ctx a w
   \<and> Store_Put (traced env) (StoreWithFallbacks (Backend b # fallbacks)) ctx a cred (w, h) =
     (case backend_Put env b ctx a cred w of
        (err, w') \<Rightarrow> Returns (err, (w', h @ [PutCall b a cred err])))
   \<and> Store_Delete (traced env) (StoreWithFallbacks (Backend b # fallbacks)) ctx a (w, h) =
     (case backend_Delete env b ctx a w of
        (err, w') \<Rightarrow> Returns (err, (w', h @ [DeleteCall b a err])))"
proof (intro conjI)
  show "Store_Put env (NewStoreWithFallbacks primary fallbacks) ctx a cred w =
      Store_Put env primary ctx a cred w"
    by (simp add: NewStoreWithFallbacks_def index_0_Cons)
  show "Store_Delete env (NewStoreWithFallbacks primary fallbacks) ctx a w =
      Store_Delete env primary ctx a w"
    by (simp add: NewStoreWithFallbacks_def index_0_Cons)
  show "storeWithFallbacks_Put env (primary # fallbacks) ctx a cred w =
      Store_Put env primary ctx a cred w"
    by (rule storeWithFallbacks_Put_Cons)
  show "storeWithFallbacks_Delete env (primary # fallbacks) ctx a w =
      Store_Delete env primary ctx a w"
    by (rule storeWithFallbacks_Delete_Cons)
  show "Store_Put (traced env) (StoreWithFallbacks (Backend b # fallbacks)) ctx a cred (w, h) =
      (case backend_Put env b ctx a cred w of
         (err, w') \<Rightarrow> Returns (err, (w', h @ [PutCall b a cred err])))"
    by (simp add: index_0_Cons split: prod.splits)
  show "Store_Delete (traced env) (StoreWithFallbacks (Backend b # fallbacks)) ctx a (w, h) =
      (case backend_Delete env b ctx a w of
         (err, w') \<Rightarrow> Returns (err, (w', h @ [DeleteCall b a err])))"
    by (simp add: index_0_Cons split: prod.splits)
qed

text \<open>
  Writing X through the chain [store 1, store 2, store 0] calls store 1 and nothing
  else; so does deleting.
\<close>

theorem fallback_Put_Delete_primary_only_witness:
  "Store_Put (traced (example_env False None))
     (NewStoreWithFallbacks (Backend (OtherStore 1))
        [Backend (OtherStore 2), Backend (OtherStore 0)])
     () ''r.io'' cred_X (([], 0), [])
   = Returns (None, (([], 1), [PutCall (OtherStore 1) ''r.io'' cred_X None]))
   \<and> Store_Delete (traced (example_env False None))
     (NewStoreWithFallbacks (Backend (OtherStore 1))
        [Backend (OtherStore 2), Backend (OtherStore 0)])
     () ''r.io'' (([], 0), [])
   = Returns (None, (([], 1), [DeleteCall (OtherStore 1) ''r.io'' None]))"
  using fallback_Put_Delete_primary_only
    [of "traced (example_env False None)" "Backend (OtherStore 1)"
        "[Backend (OtherStore 2), Backend (OtherStore 0)]" "()" "''r.io''" cred_X "(([], 0), [])"]
  by simp

text \<open>
  C6. With no fallbacks \<^verbatim>\<open>NewStoreWithFallbacks\<close> returns the primary itself, which is
  not the composite around it, so \<^verbatim>\<open>Get\<close>, \<^verbatim>\<open>Put\<close> and \<^verbatim>\<open>Delete\<close> on the result are those
  of the primary, errors included.
\<close>

theorem NewStoreWithFallbacks_without_fallbacks:
  "NewStoreWithFallbacks primary [] = primary
   \<and> NewStoreWithFallbacks primary [] \<noteq> StoreWithFallbacks [primary]
   \<and> Store_Get env (NewStoreWithFallbacks primary []) ctx a w = Store_Get env primary ctx a w
   \<and> Store_Put env (NewStoreWithFallbacks primary []) ctx a cred w =
       Store_Put env primary ctx a cred w
   \<and> Store_Delete env (NewStoreWithFallbacks primary []) ctx a w =
       Store_Delete env primary ctx a w"
proof -
  have same: "NewStoreWithFallbacks primary [] = primary"
    by (simp add: NewStoreWithFallbacks_def)
  have "size primary < size (StoreWithFallbacks [primary])"
    by simp
  then have "primary \<noteq> StoreWithFallbacks [primary]"
    by (metis less_irrefl)
  with same show ?thesis by simp
qed

text \<open>
  Store 7 fails and hands back a credential next to its error. Unwrapped, the caller
  sees both; a composite around it would have replaced the credential.
\<close>

theorem NewStoreWithFallbacks_without_fallbacks_witness:
  "Store_Get (example_env False None) (NewStoreWithFallbacks (Backend (OtherStore 7)) [])
      () ''r.io'' ([], 0)
   = ((cred_X, Some (Err ''E'')), ([], 0))
   \<and> Store_Get (example_env False None) (StoreWithFallbacks [Backend (OtherStore 7)])
      () ''r.io'' ([], 0)
   = ((EmptyCredential, Some (Err ''E'')), ([], 0))"
  using NewStoreWithFallbacks_without_fallbacks
    [of "Backend (OtherStore 7)" "example_env False None" "()" "''r.io''" "([], 0)"]
  by simp

lemma well_built_never_panics:
  "well_built s \<Longrightarrow>
   Store_Put env s ctx a cred w \<noteq> Panics \<and> Store_Delete env s ctx a w \<noteq> Panics"
proof (induction s)
  case (Backend b)
  show ?case by simp
next
  case (StoreWithFallbacks stores)
  then obtain primary fallbacks where st: "stores = primary # fallbacks"
    by (cases stores) auto
  with StoreWithFallbacks.prems have "well_built primary" by simp
  with StoreWithFallbacks.IH [of primary] st show ?case
    by (simp add: index_0_Cons)
qed

text \<open>
  C10. With at least one fallback \<^verbatim>\<open>NewStoreWithFallbacks\<close> returns a composite whose
  slice is the primary followed by the fallbacks: it has one more element than there
  are fallbacks, index 0 is in range and yields the primary, so \<^verbatim>\<open>Put\<close> and \<^verbatim>\<open>Delete\<close> of
  the composite reach the primary's methods. When the stores put together were
  themselves made by backends and this constructor, the result is again so made and
  its \<^verbatim>\<open>Put\<close> and \<^verbatim>\<open>Delete\<close> do not panic.
\<close>

theorem NewStoreWithFallbacks_composite_in_bounds:
  assumes "fallbacks \<noteq> []"
  shows "\<exists>stores.
      NewStoreWithFallbacks primary fallbacks = StoreWithFallbacks stores
    \<and> stores = primary # fallbacks
    \<and> length stores = 1 + length fallbacks
    \<and> 0 < length stores
    \<and> index stores 0 = Returns primary
    \<and> storeWithFallbacks_Put env stores ctx a cred w = Store_Put env primary ctx a cred w
    \<and> storeWithFallbacks_Delete env stores ctx a w = Store_Delete env primary ctx a w
    \<and> (well_built primary \<and> list_all well_built fallbacks \<longrightarrow>
         well_built (NewStoreWithFallbacks primary fallbacks)
       \<and> Store_Put env (NewStoreWithFallbacks primary fallbacks) ctx a cred w \<noteq> Panics
       \<and> Store_Delete env (NewStoreWithFallbacks primary fallbacks) ctx a w \<noteq> Panics)"
proof -
  have c: "NewStoreWithFallbacks primary fallbacks = StoreWithFallbacks (primary # fallbacks)"
    using assms by (simp add: NewStoreWithFallbacks_def)
  have l: "2 \<le> length (primary # fallbacks)"
    using assms by (cases fallbacks) simp_all
  have wb: "well_built primary \<and> list_all well_built fallbacks \<longrightarrow>
      well_built (NewStoreWithFallbacks primary fallbacks)"
    using c l by simp
  have np: "well_built primary \<and> list_all well_built fallbacks \<longrightarrow>
      Store_Put env (NewStoreWithFallbacks primary fallbacks) ctx a cred w \<noteq> Panics
      \<and> Store_Delete env (NewStoreWithFallbacks primary fallbacks) ctx a w \<noteq> Panics"
    using wb well_built_never_panics [of "NewStoreWithFallbacks primary fallbacks" env ctx a cred w]
    by blast
  show ?thesis
  proof (intro exI [of _ "primary # fallbacks"] conjI)
    show "NewStoreWithFallbacks primary fallbacks = StoreWithFallbacks (primary # fallbacks)"
      by (rule c)
    show "index (primary # fallbacks) 0 = Returns primary"
      by (rule index_0_Cons)
    show "storeWithFallbacks_Put env (primary # fallbacks) ctx a cred w =
        Store_Put env primary ctx a cred w"
      by (rule storeWithFallbacks_Put_Cons)
    show "storeWithFallbacks_Delete env (primary # fallbacks) ctx a w =
        Store_Delete env primary ctx a w"
      by (rule storeWithFallbacks_Delete_Cons)
    show "well_built primary \<and> list_all well_built fallbacks \<longrightarrow>
         well_built (NewStoreWithFallbacks primary fallbacks)
       \<and> Store_Put env (NewStoreWithFallbacks primary fallbacks) ctx a cred w \<noteq> Panics
       \<and> Store_Delete env (NewStoreWithFallbacks primary fallbacks) ctx a w \<noteq> Panics"
      using wb np by blast
  qed simp_all
qed

text \<open>A composite of store 1 with the fallbacks store 2 and store 0.\<close>

theorem NewStoreWithFallbacks_composite_in_bounds_witness:
  "[Backend (OtherStore 2), Backend (OtherStore (0::nat))] \<noteq> []
   \<and> NewStoreWithFallbacks (Backend (OtherStore 1) :: (string, nat) Store)
        [Backend (OtherStore 2), Backend (OtherStore 0)]
     = StoreWithFallbacks [Backend (OtherStore 1), Backend (OtherStore 2), Backend (OtherStore 0)]
   \<and> index [Backend (OtherStore 1) :: (string, nat) Store, Backend (OtherStore 2),
             Backend (OtherStore 0)] 0
     = Returns (Backend (OtherStore 1))
   \<and> Store_Put (example_env False None)
        (NewStoreWithFallbacks (Backend (OtherStore 1))
           [Backend (OtherStore 2), Backend (OtherStore 0)]) () ''r.io'' cred_X ([], 0)
     \<noteq> Panics"
proof -
  have h: "[Backend (OtherStore 2), Backend (OtherStore (0::nat)) :: (string, nat) Store] \<noteq> []"
    by simp
  from NewStoreWithFallbacks_composite_in_bounds
    [OF h, of "Backend (OtherStore 1)" "example_env False None" "()" "''r.io''" cred_X "([], 0)"]
  show ?thesis by (simp add: index_0_Cons)
qed

section \<open>Properties of the resolver\<close>

lemma getStore_selected: "getStore env ds a w = Backend (spec_selected_backend env ds a w)"
  by (simp add: getStore_def getHelperSuffix_def spec_selected_backend_def NewNativeStore_def
      newFileStore_def Let_def)

lemma spec_selected_backend_traced [simp]:
  "spec_selected_backend (traced env) ds a (w, h) = spec_selected_backend env ds a w"
  by (simp add: spec_selected_backend_def)

lemma persists_simps [simp]:
  "persists [] = 0"
  "persists (GetCall b a cred err # h) = persists h"
  "persists (PutCall b a cred err # h) = persists h"
  "persists (DeleteCall b a err # h) = persists h"
  "persists (SetCredentialsStoreCall cfg name err # h) = Suc (persists h)"
  by (simp_all add: persists_def)

lemma persists_append [simp]: "persists (xs @ ys) = persists xs + persists ys"
  by (simp add: persists_def)

lemma dynamicStore_Get_traced:
  "dynamicStore_Get (traced env) ds ctx a (w, h) =
     (case backend_Get env (spec_selected_backend env ds a w) ctx a w of
        ((cred, err), w') \<Rightarrow>
          ((cred, err), (w', h @ [GetCall (spec_selected_backend env ds a w) a cred err])))"
  by (simp add: dynamicStore_Get_def getStore_selected)

lemma dynamicStore_Delete_traced:
  "dynamicStore_Delete (traced env) ds ctx a (w, h) =
     (case backend_Delete env (spec_selected_backend env ds a w) ctx a w of
        (err, w') \<Rightarrow>
          Returns (err, (w', h @ [DeleteCall (spec_selected_backend env ds a w) a err])))"
  by (simp add: dynamicStore_Delete_def getStore_selected split: prod.splits)

lemma dynamicStore_Put_traced:
  "dynamicStore_Put (traced env) ds ctx a cred (w, h) =
     (case backend_Put env (spec_selected_backend env ds a w) ctx a cred w of
        (Some err, w') \<Rightarrow>
          Returns (Some err, ds,
                   (w', h @ [PutCall (spec_selected_backend env ds a w) a cred (Some err)]))
      | (None, w') \<Rightarrow>
          if done_flag (setCredsStoreOnce ds) then
            Returns (None, ds,
                     (w', h @ [PutCall (spec_selected_backend env ds a w) a cred None]))
          else if detectedCredsStore ds = [] then
            Returns (None, ds\<lparr>setCredsStoreOnce := \<lparr>done_flag = True\<rparr>\<rparr>,
                     (w', h @ [PutCall (spec_selected_backend env ds a w) a cred None]))
          else
            (case SetCredentialsStore env (config ds) (detectedCredsStore ds) w' of
               (r, w'') \<Rightarrow>
                 Returns (map_option (Errorf_w ''failed to set credsStore: '') r,
                          ds\<lparr>setCredsStoreOnce := \<lparr>done_flag = True\<rparr>\<rparr>,
                          (w'', h @ [PutCall (spec_selected_backend env ds a w) a cred None,
                                     SetCredentialsStoreCall (config ds)
                                       (detectedCredsStore ds) r]))))"
  by (simp add: dynamicStore_Put_def getStore_selected Once_Do_def saveDetected_def
      split: prod.splits option.splits)

text \<open>
  The same without the history: what \<open>traced\<close> adds does not change what the
  resolver returns.
\<close>

lemma dynamicStore_Put_untraced:
  "dynamicStore_Put env ds ctx a cred w =
     (case backend_Put env (spec_selected_backend env ds a w) ctx a cred w of
        (Some err, w') \<Rightarrow> Returns (Some err, ds, w')
      | (None, w') \<Rightarrow>
          if done_flag (setCredsStoreOnce ds) then Returns (None, ds, w')
          else if detectedCredsStore ds = [] then
            Returns (None, ds\<lparr>setCredsStoreOnce := \<lparr>done_flag = True\<rparr>\<rparr>, w')
          else
            (case SetCredentialsStore env (config ds) (detectedCredsStore ds) w' of
               (r, w'') \<Rightarrow>
                 Returns (map_option (Errorf_w ''failed to set credsStore: '') r,
                          ds\<lparr>setCredsStoreOnce := \<lparr>done_flag = True\<rparr>\<rparr>, w'')))"
  by (simp add: dynamicStore_Put_def getStore_selected Once_Do_def saveDetected_def
      split: prod.splits option.splits)

text \<open>One call of \<^verbatim>\<open>Put\<close>, as one step of a run.\<close>

lemma Put_step:
  obtains err1 ds1 w1 e more where
    "dynamicStore_Put (traced env) ds ctx a cred (w, h) =
       Returns (err1, ds1,
                (w1, h @ PutCall (spec_selected_backend env ds a w) a cred e # more))"
    "config ds1 = config ds" "options ds1 = options ds"
    "detectedCredsStore ds1 = detectedCredsStore ds"
    "done_flag (setCredsStoreOnce ds) \<longrightarrow> done_flag (setCredsStoreOnce ds1)"
    "persists more \<le>
       (if done_flag (setCredsStoreOnce ds) \<or> detectedCredsStore ds = [] then 0 else 1)"
    "0 < persists more \<longrightarrow> done_flag (setCredsStoreOnce ds1)"
    "list_all is_SetCredentialsStoreCall more"
    "\<forall>rest. (\<forall>ok. only_after_put ok rest) \<longrightarrow>
       (\<forall>ok. only_after_put ok
          ((PutCall (spec_selected_backend env ds a w) a cred e # more) @ rest))"
proof -
  obtain e w1 where p:
    "backend_Put env (spec_selected_backend env ds a w) ctx a cred w = (e, w1)"
    by (metis prod.exhaust)
  obtain r w2 where s:
    "SetCredentialsStore env (config ds) (detectedCredsStore ds) w1 = (r, w2)"
    by (metis prod.exhaust)
  show ?thesis
  proof (cases e)
    case (Some err)
    with p have "dynamicStore_Put (traced env) ds ctx a cred (w, h) =
        Returns (Some err, ds,
          (w1, h @ PutCall (spec_selected_backend env ds a w) a cred (Some err) # []))"
      by (simp add: dynamicStore_Put_traced)
    then show ?thesis by (rule that) simp_all
  next
    case None
    show ?thesis
    proof (cases "done_flag (setCredsStoreOnce ds)")
      case True
      with p None have "dynamicStore_Put (traced env) ds ctx a cred (w, h) =
          Returns (None, ds,
            (w1, h @ PutCall (spec_selected_backend env ds a w) a cred None # []))"
        by (simp add: dynamicStore_Put_traced)
      then show ?thesis by (rule that) simp_all
    next
      case False
      show ?thesis
      proof (cases "detectedCredsStore ds = []")
        case True
        with p None False have "dynamicStore_Put (traced env) ds ctx a cred (w, h) =
            Returns (None, ds\<lparr>setCredsStoreOnce := \<lparr>done_flag = True\<rparr>\<rparr>,
              (w1, h @ PutCall (spec_selected_backend env ds a w) a cred None # []))"
          by (simp add: dynamicStore_Put_traced)
        then show ?thesis by (rule that) simp_all
      next
        case nonempty: False
        with p s None False have "dynamicStore_Put (traced env) ds ctx a cred (w, h) =
            Returns (map_option (Errorf_w ''failed to set credsStore: '') r,
              ds\<lparr>setCredsStoreOnce := \<lparr>done_flag = True\<rparr>\<rparr>,
              (w2, h @ PutCall (spec_selected_backend env ds a w) a cred None #
                     [SetCredentialsStoreCall (config ds) (detectedCredsStore ds) r]))"
          by (simp add: dynamicStore_Put_traced)
        then show ?thesis by (rule that) (simp_all add: nonempty False)
      qed
    qed
  qed
qed

text \<open>
  Any run of requests on a resolver returns, leaves the fields set at construction
  as they are, never clears the \<^verbatim>\<open>Once\<close>, writes the global helper at most once (not
  at all when the \<^verbatim>\<open>Once\<close> is done or nothing was detected), and only right after a
  backend \<^verbatim>\<open>Put\<close> that returned nil.
\<close>

lemma serve_traced:
  "\<exists>answers ds' w' calls.
     serve (traced env) ds reqs (w, h) = Returns (answers, ds', (w', h @ calls)) \<and>
     length answers = length reqs \<and>
     config ds' = config ds \<and> options ds' = options ds \<and>
     detectedCredsStore ds' = detectedCredsStore ds \<and>
     (done_flag (setCredsStoreOnce ds) \<longrightarrow> done_flag (setCredsStoreOnce ds')) \<and>
     persists calls \<le>
       (if done_flag (setCredsStoreOnce ds) \<or> detectedCredsStore ds = [] then 0 else 1) \<and>
     (\<forall>ok. only_after_put ok calls)"
proof (induction reqs arbitrary: ds w h)
  case Nil
  show ?case by simp
next
  case (Cons r reqs)
  show ?case
  proof (cases r)
    case (GetRequest ctx a)
    obtain cred err w1 where g:
      "backend_Get env (spec_selected_backend env ds a w) ctx a w = ((cred, err), w1)"
      by (metis prod.exhaust)
    from Cons.IH [of ds w1 "h @ [GetCall (spec_selected_backend env ds a w) a cred err]"]
    obtain answers ds' w' calls where
      "serve (traced env) ds reqs
         (w1, h @ [GetCall (spec_selected_backend env ds a w) a cred err]) =
       Returns (answers, ds',
         (w', (h @ [GetCall (spec_selected_backend env ds a w) a cred err]) @ calls))"
      and rest: "length answers = length reqs" "config ds' = config ds"
       "options ds' = options ds" "detectedCredsStore ds' = detectedCredsStore ds"
       "done_flag (setCredsStoreOnce ds) \<longrightarrow> done_flag (setCredsStoreOnce ds')"
       "persists calls \<le>
         (if done_flag (setCredsStoreOnce ds) \<or> detectedCredsStore ds = [] then 0 else 1)"
       "\<forall>ok. only_after_put ok calls"
      by blast
    then have "serve (traced env) ds (r # reqs) (w, h) =
        Returns (GetAnswer cred err # answers, ds',
                 (w', h @ (GetCall (spec_selected_backend env ds a w) a cred err # calls)))"
      using g GetRequest by (simp add: dynamicStore_Get_traced)
    with rest show ?thesis
      by (intro exI [of _ "GetAnswer cred err # answers"] exI [of _ ds'] exI [of _ w']
          exI [of _ "GetCall (spec_selected_backend env ds a w) a cred err # calls"]) simp
  next
    case (DeleteRequest ctx a)
    obtain err w1 where g:
      "backend_Delete env (spec_selected_backend env ds a w) ctx a w = (err, w1)"
      by (metis prod.exhaust)
    from Cons.IH [of ds w1 "h @ [DeleteCall (spec_selected_backend env ds a w) a err]"]
    obtain answers ds' w' calls where
      "serve (traced env) ds reqs
         (w1, h @ [DeleteCall (spec_selected_backend env ds a w) a err]) =
       Returns (answers, ds',
         (w', (h @ [DeleteCall (spec_selected_backend env ds a w) a err]) @ calls))"
      and rest: "length answers = length reqs" "config ds' = config ds"
       "options ds' = options ds" "detectedCredsStore ds' = detectedCredsStore ds"
       "done_flag (setCredsStoreOnce ds) \<longrightarrow> done_flag (setCredsStoreOnce ds')"
       "persists calls \<le>
         (if done_flag (setCredsStoreOnce ds) \<or> detectedCredsStore ds = [] then 0 else 1)"
       "\<forall>ok. only_after_put ok calls"
      by blast
    then have "serve (traced env) ds (r # reqs) (w, h) =
        Returns (DeleteAnswer err # answers, ds',
                 (w', h @ (DeleteCall (spec_selected_backend env ds a w) a err # calls)))"
      using g DeleteRequest by (simp add: dynamicStore_Delete_traced)
    with rest show ?thesis
      by (intro exI [of _ "DeleteAnswer err # answers"] exI [of _ ds'] exI [of _ w']
          exI [of _ "DeleteCall (spec_selected_backend env ds a w) a err # calls"]) simp
  next
    case (PutRequest ctx a cred)
    obtain err1 ds1 w1 e more where
      p: "dynamicStore_Put (traced env) ds ctx a cred (w, h) =
         Returns (err1, ds1,
           (w1, h @ PutCall (spec_selected_backend env ds a w) a cred e # more))"
      and p1: "config ds1 = config ds" "options ds1 = options ds"
        "detectedCredsStore ds1 = detectedCredsStore ds"
        "done_flag (setCredsStoreOnce ds) \<longrightarrow> done_flag (setCredsStoreOnce ds1)"
      and p2: "persists more \<le>
        (if done_flag (setCredsStoreOnce ds) \<or> detectedCredsStore ds = [] then 0 else 1)"
        "0 < persists more \<longrightarrow> done_flag (setCredsStoreOnce ds1)"
      and p4: "list_all is_SetCredentialsStoreCall more"
      and p3: "\<forall>rest. (\<forall>ok. only_after_put ok rest) \<longrightarrow>
        (\<forall>ok. only_after_put ok
           ((PutCall (spec_selected_backend env ds a w) a cred e # more) @ rest))"
      by (rule Put_step [of env ds ctx a cred w h])
    define calls1 where "calls1 = PutCall (spec_selected_backend env ds a w) a cred e # more"
    from Cons.IH [of ds1 w1 "h @ calls1"]
    obtain answers ds' w' calls where
      q: "serve (traced env) ds1 reqs (w1, h @ calls1) =
         Returns (answers, ds', (w', (h @ calls1) @ calls))"
      and rest: "length answers = length reqs" "config ds' = config ds1"
       "options ds' = options ds1" "detectedCredsStore ds' = detectedCredsStore ds1"
       "done_flag (setCredsStoreOnce ds1) \<longrightarrow> done_flag (setCredsStoreOnce ds')"
      and r2: "persists calls \<le>
         (if done_flag (setCredsStoreOnce ds1) \<or> detectedCredsStore ds1 = [] then 0 else 1)"
      and r3: "\<forall>ok. only_after_put ok calls"
      by blast
    from p q PutRequest have "serve (traced env) ds (r # reqs) (w, h) =
        Returns (PutAnswer err1 # answers, ds', (w', h @ (calls1 @ calls)))"
      by (simp add: calls1_def)
    moreover have "persists (calls1 @ calls) \<le>
        (if done_flag (setCredsStoreOnce ds) \<or> detectedCredsStore ds = [] then 0 else 1)"
      using p1 p2 r2 by (auto simp: calls1_def split: if_splits)
    moreover have "\<forall>ok. only_after_put ok (calls1 @ calls)"
      using p3 r3 unfolding calls1_def by blast
    ultimately show ?thesis using rest p1
      by (intro exI [of _ "PutAnswer err1 # answers"] exI [of _ ds'] exI [of _ w']
          exI [of _ "calls1 @ calls"]) simp
  qed
qed

lemma only_after_put_split:
  "only_after_put ok (pre @ c # post) \<Longrightarrow> is_SetCredentialsStoreCall c \<Longrightarrow>
   (pre = [] \<and> ok) \<or> (\<exists>b a cred pre'. pre = pre' @ [PutCall b a cred None])"
proof (induction pre arbitrary: ok)
  case Nil
  then show ?case by (cases c) simp_all
next
  case (Cons x pre)
  show ?case
  proof (cases x)
    case (PutCall b a cred err)
    with Cons.prems have "only_after_put (err = None) (pre @ c # post)" by simp
    from Cons.IH [OF this Cons.prems(2)] show ?thesis
    proof
      assume "pre = [] \<and> err = None"
      with PutCall have "x # pre = [] @ [PutCall b a cred None]" by simp
      then show ?thesis by blast
    next
      assume "\<exists>b a cred pre'. pre = pre' @ [PutCall b a cred None]"
      then obtain b' a' cred' pre' where "pre = pre' @ [PutCall b' a' cred' None]" by blast
      then have "x # pre = (x # pre') @ [PutCall b' a' cred' None]" by simp
      then show ?thesis by blast
    qed
  next
    case (GetCall b a cred err)
    with Cons.prems have "only_after_put False (pre @ c # post)" by simp
    from Cons.IH [OF this Cons.prems(2)]
    obtain b' a' cred' pre' where "pre = pre' @ [PutCall b' a' cred' None]" by blast
    then have "x # pre = (x # pre') @ [PutCall b' a' cred' None]" by simp
    then show ?thesis by blast
  next
    case (DeleteCall b a err)
    with Cons.prems have "only_after_put False (pre @ c # post)" by simp
    from Cons.IH [OF this Cons.prems(2)]
    obtain b' a' cred' pre' where "pre = pre' @ [PutCall b' a' cred' None]" by blast
    then have "x # pre = (x # pre') @ [PutCall b' a' cred' None]" by simp
    then show ?thesis by blast
  next
    case (SetCredentialsStoreCall cfg name err)
    with Cons.prems have "only_after_put False (pre @ c # post)" by simp
    from Cons.IH [OF this Cons.prems(2)]
    obtain b' a' cred' pre' where "pre = pre' @ [PutCall b' a' cred' None]" by blast
    then have "x # pre = (x # pre') @ [PutCall b' a' cred' None]" by simp
    then show ?thesis by blast
  qed
qed

text \<open>
  C1. For every address the resolver picks its backend by strict priority: the native
  store of the per-address helper when the config has one; else the native store of
  the global helper when one is configured; else the native store of the detected
  default when there is one; else the file store of the config with
  \<open>DisablePut = \<not> AllowPlaintextPut\<close>. \<open>getStore\<close> agrees with the selection as the
  specification words it, and \<^verbatim>\<open>Get\<close>, \<^verbatim>\<open>Delete\<close> and \<^verbatim>\<open>Put\<close> each call the selected
  backend, once, and no other backend: the history of \<^verbatim>\<open>Get\<close> and \<^verbatim>\<open>Delete\<close> grows by
  that one call, the history of \<^verbatim>\<open>Put\<close> by that call and, behind it, config writes only.
\<close>

theorem dynamicStore_selects_by_priority:
  "(GetCredentialHelper env (config ds) a w \<noteq> [] \<longrightarrow>
      getStore env ds a w = NewNativeStore (GetCredentialHelper env (config ds) a w))
   \<and> (GetCredentialHelper env (config ds) a w = [] \<and> CredentialsStore env (config ds) w \<noteq> []
      \<longrightarrow> getStore env ds a w = NewNativeStore (CredentialsStore env (config ds) w))
   \<and> (GetCredentialHelper env (config ds) a w = [] \<and> CredentialsStore env (config ds) w = []
        \<and> detectedCredsStore ds \<noteq> []
      \<longrightarrow> getStore env ds a w = NewNativeStore (detectedCredsStore ds))
   \<and> (GetCredentialHelper env (config ds) a w = [] \<and> CredentialsStore env (config ds) w = []
        \<and> detectedCredsStore ds = []
      \<longrightarrow> getStore env ds a w =
            Backend (FileStoreOf \<lparr>DisablePut = \<not> AllowPlaintextPut (options ds),
                                  fs_config = config ds\<rparr>))
   \<and> getStore env ds a w = Backend (spec_selected_backend env ds a w)
   \<and> dynamicStore_Get (traced env) ds ctx a (w, h) =
       (case backend_Get env (spec_selected_backend env ds a w) ctx a w of
          ((c, err), w') \<Rightarrow>
            ((c, err), (w', h @ [GetCall (spec_selected_backend env ds a w) a c err])))
   \<and> dynamicStore_Delete (traced env) ds ctx a (w, h) =
       (case backend_Delete env (spec_selected_backend env ds a w) ctx a w of
          (err, w') \<Rightarrow>
            Returns (err, (w', h @ [DeleteCall (spec_selected_backend env ds a w) a err])))
   \<and> (\<exists>err ds' w' e more.
        dynamicStore_Put (traced env) ds ctx a cred (w, h) =
          Returns (err, ds',
                   (w', h @ PutCall (spec_selected_backend env ds a w) a cred e # more))
        \<and> list_all is_SetCredentialsStoreCall more)"
proof -
  have sel: "getStore env ds a w = Backend (spec_selected_backend env ds a w)"
    by (rule getStore_selected)
  have put: "\<exists>err ds' w' e more.
        dynamicStore_Put (traced env) ds ctx a cred (w, h) =
          Returns (err, ds',
                   (w', h @ PutCall (spec_selected_backend env ds a w) a cred e # more))
        \<and> list_all is_SetCredentialsStoreCall more"
  proof -
    obtain err1 ds1 w1 e more where
      "dynamicStore_Put (traced env) ds ctx a cred (w, h) =
         Returns (err1, ds1,
           (w1, h @ PutCall (spec_selected_backend env ds a w) a cred e # more))"
      "config ds1 = config ds" "options ds1 = options ds"
      "detectedCredsStore ds1 = detectedCredsStore ds"
      "done_flag (setCredsStoreOnce ds) \<longrightarrow> done_flag (setCredsStoreOnce ds1)"
      "persists more \<le>
        (if done_flag (setCredsStoreOnce ds) \<or> detectedCredsStore ds = [] then 0 else 1)"
      "0 < persists more \<longrightarrow> done_flag (setCredsStoreOnce ds1)"
      "list_all is_SetCredentialsStoreCall more"
      "\<forall>rest. (\<forall>ok. only_after_put ok rest) \<longrightarrow>
        (\<forall>ok. only_after_put ok
           ((PutCall (spec_selected_backend env ds a w) a cred e # more) @ rest))"
      by (rule Put_step [of env ds ctx a cred w h])
    then show ?thesis by blast
  qed
  show ?thesis
  proof (intro conjI)
    show "getStore env ds a w = Backend (spec_selected_backend env ds a w)" by (rule sel)
    show "dynamicStore_Get (traced env) ds ctx a (w, h) =
       (case backend_Get env (spec_selected_backend env ds a w) ctx a w of
          ((c, err), w') \<Rightarrow>
            ((c, err), (w', h @ [GetCall (spec_selected_backend env ds a w) a c err])))"
      by (rule dynamicStore_Get_traced)
    show "dynamicStore_Delete (traced env) ds ctx a (w, h) =
       (case backend_Delete env (spec_selected_backend env ds a w) ctx a w of
          (err, w') \<Rightarrow>
            Returns (err, (w', h @ [DeleteCall (spec_selected_backend env ds a w) a err])))"
      by (rule dynamicStore_Delete_traced)
    show "\<exists>err ds' w' e more.
        dynamicStore_Put (traced env) ds ctx a cred (w, h) =
          Returns (err, ds',
                   (w', h @ PutCall (spec_selected_backend env ds a w) a cred e # more))
        \<and> list_all is_SetCredentialsStoreCall more"
      by (rule put)
  qed (simp_all add: sel spec_selected_backend_def NewNativeStore_def)
qed

text \<open>
  The example of the specification: with the per-address helper \<^verbatim>\<open>helper-a\<close> for
  \<^verbatim>\<open>registry.example.com\<close> and the global helper \<^verbatim>\<open>helper-b\<close>, that address goes to
  \<^verbatim>\<open>helper-a\<close> and \<^verbatim>\<open>other.example.com\<close> to \<^verbatim>\<open>helper-b\<close>. With an empty config the
  detected \<^verbatim>\<open>pass\<close> is used, and without a detected default the file store, which
  refuses to write since plaintext is not allowed.
\<close>

theorem dynamicStore_selects_by_priority_witness:
  "GetCredentialHelper (example_env True None) (config configured_resolver)
       ''registry.example.com'' (''helper-b'', 0) \<noteq> []
   \<and> getStore (example_env True None) configured_resolver ''registry.example.com''
       (''helper-b'', 0) = NewNativeStore ''helper-a''
   \<and> GetCredentialHelper (example_env True None) (config configured_resolver)
       ''other.example.com'' (''helper-b'', 0) = []
   \<and> CredentialsStore (example_env True None) (config configured_resolver)
       (''helper-b'', 0) \<noteq> []
   \<and> getStore (example_env True None) configured_resolver ''other.example.com''
       (''helper-b'', 0) = NewNativeStore ''helper-b''
   \<and> getStore (example_env False None) fresh_resolver ''other.example.com'' ([], 0)
       = NewNativeStore ''pass''
   \<and> getStore (example_env False None) configured_resolver ''other.example.com'' ([], 0)
       = Backend (FileStoreOf \<lparr>DisablePut = True, fs_config = ''config.json''\<rparr>)"
  using
    dynamicStore_selects_by_priority
      [of "example_env True None" configured_resolver "''registry.example.com''"
          "(''helper-b'', 0)" "()" "[]" cred_X]
    dynamicStore_selects_by_priority
      [of "example_env True None" configured_resolver "''other.example.com''"
          "(''helper-b'', 0)" "()" "[]" cred_X]
    dynamicStore_selects_by_priority
      [of "example_env False None" fresh_resolver "''other.example.com''"
          "([], 0)" "()" "[]" cred_X]
    dynamicStore_selects_by_priority
      [of "example_env False None" configured_resolver "''other.example.com''"
          "([], 0)" "()" "[]" cred_X]
  by (simp add: configured_resolver_def fresh_resolver_def example_options_def)

text \<open>
  C2. In any run of requests on a resolver, \<^verbatim>\<open>SetCredentialsStore\<close> is called at most
  once, and a call of it comes right after a backend \<^verbatim>\<open>Put\<close> that returned nil. A
  \<^verbatim>\<open>Get\<close> or a \<^verbatim>\<open>Delete\<close> adds one backend call to the history and nothing else, and
  leaves the resolver as it is. A \<^verbatim>\<open>Put\<close> whose backend call fails adds that call only
  and leaves the resolver as it is, the \<^verbatim>\<open>Once\<close> included; so a later \<^verbatim>\<open>Put\<close> whose
  backend call succeeds, on a resolver with a detected default and a \<^verbatim>\<open>Once\<close> not yet
  done, does write the default.
\<close>

theorem persist_at_most_once_and_only_after_Put:
  "(\<exists>answers ds' w' calls.
      serve (traced env) ds reqs (w, h) = Returns (answers, ds', (w', h @ calls))
      \<and> persists calls \<le> 1
      \<and> (\<forall>pre c post. calls = pre @ c # post \<and> is_SetCredentialsStoreCall c \<longrightarrow>
            (\<exists>b a' cred' pre'. pre = pre' @ [PutCall b a' cred' None])))
   \<and> (\<exists>c err w' b.
        serve (traced env) ds [GetRequest ctx a] (w, h) =
          Returns ([GetAnswer c err], ds, (w', h @ [GetCall b a c err])))
   \<and> (\<exists>err w' b.
        serve (traced env) ds [DeleteRequest ctx a] (w, h) =
          Returns ([DeleteAnswer err], ds, (w', h @ [DeleteCall b a err])))
   \<and> (backend_Put env (spec_selected_backend env ds a w) ctx a cred w = (Some err, w1) \<longrightarrow>
        dynamicStore_Put (traced env) ds ctx a cred (w, h) =
          Returns (Some err, ds,
                   (w1, h @ [PutCall (spec_selected_backend env ds a w) a cred (Some err)])))
   \<and> (backend_Put env (spec_selected_backend env ds a w) ctx a cred w = (None, w1)
        \<and> \<not> done_flag (setCredsStoreOnce ds) \<and> detectedCredsStore ds \<noteq> [] \<longrightarrow>
        (\<exists>r ds' w2.
           dynamicStore_Put (traced env) ds ctx a cred (w, h) =
             Returns (r, ds',
                      (w2, h @ [PutCall (spec_selected_backend env ds a w) a cred None,
                                SetCredentialsStoreCall (config ds) (detectedCredsStore ds)
                                  (fst (SetCredentialsStore env (config ds)
                                          (detectedCredsStore ds) w1))]))
           \<and> done_flag (setCredsStoreOnce ds')))"
proof (intro conjI impI)
  from serve_traced [of env ds reqs w h]
  obtain answers ds' w' calls where
    run: "serve (traced env) ds reqs (w, h) = Returns (answers, ds', (w', h @ calls))"
    and count: "persists calls \<le>
      (if done_flag (setCredsStoreOnce ds) \<or> detectedCredsStore ds = [] then 0 else 1)"
    and after: "\<forall>ok. only_after_put ok calls"
    by blast
  from count have le: "persists calls \<le> 1" by (simp split: if_splits)
  have "\<forall>pre c post. calls = pre @ c # post \<and> is_SetCredentialsStoreCall c \<longrightarrow>
      (\<exists>b a' cred' pre'. pre = pre' @ [PutCall b a' cred' None])"
  proof (intro allI impI)
    fix pre c post
    assume h: "calls = pre @ c # post \<and> is_SetCredentialsStoreCall c"
    with after have "only_after_put False (pre @ c # post)" by simp
    from only_after_put_split [OF this] h
    show "\<exists>b a' cred' pre'. pre = pre' @ [PutCall b a' cred' None]" by simp
  qed
  with run le show "\<exists>answers ds' w' calls.
      serve (traced env) ds reqs (w, h) = Returns (answers, ds', (w', h @ calls))
      \<and> persists calls \<le> 1
      \<and> (\<forall>pre c post. calls = pre @ c # post \<and> is_SetCredentialsStoreCall c \<longrightarrow>
            (\<exists>b a' cred' pre'. pre = pre' @ [PutCall b a' cred' None]))"
    by blast
next
  obtain c err w' where g:
    "backend_Get env (spec_selected_backend env ds a w) ctx a w = ((c, err), w')"
    by (metis prod.exhaust)
  then have "serve (traced env) ds [GetRequest ctx a] (w, h) =
      Returns ([GetAnswer c err], ds,
               (w', h @ [GetCall (spec_selected_backend env ds a w) a c err]))"
    by (simp add: dynamicStore_Get_traced)
  then show "\<exists>c err w' b.
        serve (traced env) ds [GetRequest ctx a] (w, h) =
          Returns ([GetAnswer c err], ds, (w', h @ [GetCall b a c err]))"
    by blast
next
  obtain err w' where g:
    "backend_Delete env (spec_selected_backend env ds a w) ctx a w = (err, w')"
    by (metis prod.exhaust)
  then have "serve (traced env) ds [DeleteRequest ctx a] (w, h) =
      Returns ([DeleteAnswer err], ds,
               (w', h @ [DeleteCall (spec_selected_backend env ds a w) a err]))"
    by (simp add: dynamicStore_Delete_traced)
  then show "\<exists>err w' b.
        serve (traced env) ds [DeleteRequest ctx a] (w, h) =
          Returns ([DeleteAnswer err], ds, (w', h @ [DeleteCall b a err]))"
    by blast
next
  assume "backend_Put env (spec_selected_backend env ds a w) ctx a cred w = (Some err, w1)"
  then show "dynamicStore_Put (traced env) ds ctx a cred (w, h) =
          Returns (Some err, ds,
                   (w1, h @ [PutCall (spec_selected_backend env ds a w) a cred (Some err)]))"
    by (simp add: dynamicStore_Put_traced)
next
  assume h: "backend_Put env (spec_selected_backend env ds a w) ctx a cred w = (None, w1)
        \<and> \<not> done_flag (setCredsStoreOnce ds) \<and> detectedCredsStore ds \<noteq> []"
  obtain r w2 where s:
    "SetCredentialsStore env (config ds) (detectedCredsStore ds) w1 = (r, w2)"
    by (metis prod.exhaust)
  with h have "dynamicStore_Put (traced env) ds ctx a cred (w, h) =
      Returns (map_option (Errorf_w ''failed to set credsStore: '') r,
               ds\<lparr>setCredsStoreOnce := \<lparr>done_flag = True\<rparr>\<rparr>,
               (w2, h @ [PutCall (spec_selected_backend env ds a w) a cred None,
                         SetCredentialsStoreCall (config ds) (detectedCredsStore ds)
                           (fst (SetCredentialsStore env (config ds)
                                   (detectedCredsStore ds) w1))]))"
    by (simp add: dynamicStore_Put_traced)
  then show "\<exists>r ds' w2.
           dynamicStore_Put (traced env) ds ctx a cred (w, h) =
             Returns (r, ds',
                      (w2, h @ [PutCall (spec_selected_backend env ds a w) a cred None,
                                SetCredentialsStoreCall (config ds) (detectedCredsStore ds)
                                  (fst (SetCredentialsStore env (config ds)
                                          (detectedCredsStore ds) w1))]))
           \<and> done_flag (setCredsStoreOnce ds')"
    by (intro exI [of _ "map_option (Errorf_w ''failed to set credsStore: '') r"]
        exI [of _ "ds\<lparr>setCredsStoreOnce := \<lparr>done_flag = True\<rparr>\<rparr>"] exI [of _ w2]) simp
qed

text \<open>
  A fresh resolver with the detected default \<^verbatim>\<open>pass\<close> serves: a \<^verbatim>\<open>Put\<close> that fails at
  the backend, a \<^verbatim>\<open>Get\<close>, a \<^verbatim>\<open>Put\<close> that succeeds, a \<^verbatim>\<open>Delete\<close>, a \<^verbatim>\<open>Put\<close> that succeeds.
  The default is written once, after the first \<^verbatim>\<open>Put\<close> that succeeded.
\<close>

theorem persist_at_most_once_and_only_after_Put_witness:
  "backend_Put (example_env False None)
      (spec_selected_backend (example_env False None) fresh_resolver ''down.example.com''
         ([], 0))
      () ''down.example.com'' cred_X ([], 0)
    = (Some (Err ''backend unreachable''), ([], 0))
   \<and> dynamicStore_Put (traced (example_env False None)) fresh_resolver ()
        ''down.example.com'' cred_X (([], 0), [])
    = Returns (Some (Err ''backend unreachable''), fresh_resolver,
               (([], 0), [PutCall (NativeStore ''pass'') ''down.example.com'' cred_X
                            (Some (Err ''backend unreachable''))]))
   \<and> serve (traced (example_env False None)) fresh_resolver
        [PutRequest () ''down.example.com'' cred_X, GetRequest () ''r.io'',
         PutRequest () ''r.io'' cred_X, DeleteRequest () ''r.io'',
         PutRequest () ''r.io'' cred_Y]
        (([], 0), [])
    = Returns
        ([PutAnswer (Some (Err ''backend unreachable'')), GetAnswer EmptyCredential None,
          PutAnswer None, DeleteAnswer None, PutAnswer None],
         fresh_resolver\<lparr>setCredsStoreOnce := \<lparr>done_flag = True\<rparr>\<rparr>,
         ((''pass'', 4),
          [PutCall (NativeStore ''pass'') ''down.example.com'' cred_X
             (Some (Err ''backend unreachable'')),
           GetCall (NativeStore ''pass'') ''r.io'' EmptyCredential None,
           PutCall (NativeStore ''pass'') ''r.io'' cred_X None,
           SetCredentialsStoreCall ''config.json'' ''pass'' None,
           DeleteCall (NativeStore ''pass'') ''r.io'' None,
           PutCall (NativeStore ''pass'') ''r.io'' cred_Y None]))
   \<and> persists
        [PutCall (NativeStore ''pass'') ''down.example.com'' cred_X
           (Some (Err ''backend unreachable'')),
         GetCall (NativeStore ''pass'') ''r.io'' EmptyCredential None,
         PutCall (NativeStore ''pass'') ''r.io'' cred_X None,
         SetCredentialsStoreCall ''config.json'' ''pass'' None,
         DeleteCall (NativeStore ''pass'') ''r.io'' None,
         PutCall (NativeStore ''pass'') ''r.io'' cred_Y None :: (string, nat) call]
       \<le> 1"
proof -
  have sel: "spec_selected_backend (example_env False None) fresh_resolver
      ''down.example.com'' ([], 0) = NativeStore ''pass''"
    by (simp add: spec_selected_backend_def fresh_resolver_def)
  have fails: "backend_Put (example_env False None)
      (spec_selected_backend (example_env False None) fresh_resolver ''down.example.com''
         ([], 0))
      () ''down.example.com'' cred_X ([], 0)
    = (Some (Err ''backend unreachable''), ([], 0))"
    by simp
  have run: "serve (traced (example_env False None)) fresh_resolver
        [PutRequest () ''down.example.com'' cred_X, GetRequest () ''r.io'',
         PutRequest () ''r.io'' cred_X, DeleteRequest () ''r.io'',
         PutRequest () ''r.io'' cred_Y]
        (([], 0), [])
    = Returns
        ([PutAnswer (Some (Err ''backend unreachable'')), GetAnswer EmptyCredential None,
          PutAnswer None, DeleteAnswer None, PutAnswer None],
         fresh_resolver\<lparr>setCredsStoreOnce := \<lparr>done_flag = True\<rparr>\<rparr>,
         ((''pass'', 4),
          [] @
          [PutCall (NativeStore ''pass'') ''down.example.com'' cred_X
             (Some (Err ''backend unreachable'')),
           GetCall (NativeStore ''pass'') ''r.io'' EmptyCredential None,
           PutCall (NativeStore ''pass'') ''r.io'' cred_X None,
           SetCredentialsStoreCall ''config.json'' ''pass'' None,
           DeleteCall (NativeStore ''pass'') ''r.io'' None,
           PutCall (NativeStore ''pass'') ''r.io'' cred_Y None]))"
    by (simp add: dynamicStore_Get_traced dynamicStore_Put_traced dynamicStore_Delete_traced
        spec_selected_backend_def fresh_resolver_def)
  note claim = persist_at_most_once_and_only_after_Put
    [of "example_env False None" fresh_resolver
        "[PutRequest () ''down.example.com'' cred_X, GetRequest () ''r.io'',
          PutRequest () ''r.io'' cred_X, DeleteRequest () ''r.io'',
          PutRequest () ''r.io'' cred_Y]"
        "([], 0)" "[]" "()" "''down.example.com''" cred_X
        "Err ''backend unreachable''" "([], 0)"]
  from claim fails have put:
    "dynamicStore_Put (traced (example_env False None)) fresh_resolver ()
        ''down.example.com'' cred_X (([], 0), [])
     = Returns (Some (Err ''backend unreachable''), fresh_resolver,
               (([], 0), [] @ [PutCall
                  (spec_selected_backend (example_env False None) fresh_resolver
                     ''down.example.com'' ([], 0))
                  ''down.example.com'' cred_X (Some (Err ''backend unreachable''))]))"
    by blast
  from claim obtain answers ds' w' calls where
    "serve (traced (example_env False None)) fresh_resolver
        [PutRequest () ''down.example.com'' cred_X, GetRequest () ''r.io'',
         PutRequest () ''r.io'' cred_X, DeleteRequest () ''r.io'',
         PutRequest () ''r.io'' cred_Y]
        (([], 0), []) = Returns (answers, ds', (w', [] @ calls))"
    and "persists calls \<le> 1"
    by blast
  with run have count: "persists
        [PutCall (NativeStore ''pass'') ''down.example.com'' cred_X
           (Some (Err ''backend unreachable'')),
         GetCall (NativeStore ''pass'') ''r.io'' EmptyCredential None,
         PutCall (NativeStore ''pass'') ''r.io'' cred_X None,
         SetCredentialsStoreCall ''config.json'' ''pass'' None,
         DeleteCall (NativeStore ''pass'') ''r.io'' None,
         PutCall (NativeStore ''pass'') ''r.io'' cred_Y None :: (string, nat) call]
       \<le> 1"
    by (simp del: persists_simps)
  from fails put run count show ?thesis
    by (simp only: sel append_Nil simp_thms)
qed

text \<open>
  C7. On a resolver with a detected default and a \<^verbatim>\<open>Once\<close> not yet done, when the
  backend \<^verbatim>\<open>Put\<close> returns nil, leaving state \<open>w1\<close>, and \<^verbatim>\<open>SetCredentialsStore\<close> then
  fails with \<open>e\<close>, leaving state \<open>w2\<close>, this \<^verbatim>\<open>Put\<close> returns \<open>e\<close> wrapped behind the
  text \<^verbatim>\<open>failed to set credsStore: \<close>. Its history is the backend write followed by
  the config write and nothing more, and its final state is \<open>w2\<close>: nothing is called
  to take the backend write back. The \<^verbatim>\<open>Once\<close> is done afterwards, and no later run of
  requests on the resolver calls \<^verbatim>\<open>SetCredentialsStore\<close> again.
\<close>

theorem persist_failure_is_wrapped_and_not_retried:
  assumes "\<not> done_flag (setCredsStoreOnce ds)" and "detectedCredsStore ds \<noteq> []"
    and "backend_Put env (spec_selected_backend env ds a w) ctx a cred w = (None, w1)"
    and "SetCredentialsStore env (config ds) (detectedCredsStore ds) w1 = (Some e, w2)"
  shows "\<exists>ds'.
      dynamicStore_Put (traced env) ds ctx a cred (w, h) =
        Returns (Some (Wrapped ''failed to set credsStore: '' e), ds',
                 (w2, h @ [PutCall (spec_selected_backend env ds a w) a cred None,
                           SetCredentialsStoreCall (config ds) (detectedCredsStore ds)
                             (Some e)]))
    \<and> dynamicStore_Put env ds ctx a cred w =
        Returns (Some (Wrapped ''failed to set credsStore: '' e), ds', w2)
    \<and> done_flag (setCredsStoreOnce ds')
    \<and> (\<forall>reqs w' h'. \<exists>answers ds'' w'' calls.
          serve (traced env) ds' reqs (w', h') = Returns (answers, ds'', (w'', h' @ calls))
          \<and> persists calls = 0)"
proof (intro exI [of _ "ds\<lparr>setCredsStoreOnce := \<lparr>done_flag = True\<rparr>\<rparr>"] conjI allI)
  show "dynamicStore_Put (traced env) ds ctx a cred (w, h) =
        Returns (Some (Wrapped ''failed to set credsStore: '' e),
                 ds\<lparr>setCredsStoreOnce := \<lparr>done_flag = True\<rparr>\<rparr>,
                 (w2, h @ [PutCall (spec_selected_backend env ds a w) a cred None,
                           SetCredentialsStoreCall (config ds) (detectedCredsStore ds)
                             (Some e)]))"
    using assms by (simp add: dynamicStore_Put_traced Errorf_w_def)
  show "dynamicStore_Put env ds ctx a cred w =
        Returns (Some (Wrapped ''failed to set credsStore: '' e),
                 ds\<lparr>setCredsStoreOnce := \<lparr>done_flag = True\<rparr>\<rparr>, w2)"
    using assms by (simp add: dynamicStore_Put_untraced Errorf_w_def)
  show "done_flag (setCredsStoreOnce (ds\<lparr>setCredsStoreOnce := \<lparr>done_flag = True\<rparr>\<rparr>))"
    by simp
next
  fix reqs w' h'
  from serve_traced
    [of env "ds\<lparr>setCredsStoreOnce := \<lparr>done_flag = True\<rparr>\<rparr>" reqs w' h']
  obtain answers ds'' w'' calls where
    "serve (traced env) (ds\<lparr>setCredsStoreOnce := \<lparr>done_flag = True\<rparr>\<rparr>) reqs (w', h') =
       Returns (answers, ds'', (w'', h' @ calls))"
    and "persists calls \<le>
      (if done_flag (setCredsStoreOnce (ds\<lparr>setCredsStoreOnce := \<lparr>done_flag = True\<rparr>\<rparr>))
          \<or> detectedCredsStore (ds\<lparr>setCredsStoreOnce := \<lparr>done_flag = True\<rparr>\<rparr>) = []
       then 0 else 1)"
    by blast
  then show "\<exists>answers ds'' w'' calls.
      serve (traced env) (ds\<lparr>setCredsStoreOnce := \<lparr>done_flag = True\<rparr>\<rparr>) reqs (w', h') =
        Returns (answers, ds'', (w'', h' @ calls))
      \<and> persists calls = 0"
    by auto
qed

text \<open>
  The config cannot be saved. The first \<^verbatim>\<open>Put\<close> of a fresh resolver writes to the
  backend and returns the wrapped error; a run of two \<^verbatim>\<open>Put\<close> calls shows the second
  one returning nil without another config write.
\<close>

theorem persist_failure_is_wrapped_and_not_retried_witness:
  "\<not> done_flag (setCredsStoreOnce fresh_resolver)
   \<and> detectedCredsStore fresh_resolver \<noteq> []
   \<and> backend_Put (example_env False (Some (Err ''read-only file system'')))
        (spec_selected_backend (example_env False (Some (Err ''read-only file system'')))
           fresh_resolver ''r.io'' ([], 0))
        () ''r.io'' cred_X ([], 0)
      = (None, ([], 1))
   \<and> SetCredentialsStore (example_env False (Some (Err ''read-only file system'')))
        (config fresh_resolver) (detectedCredsStore fresh_resolver) ([], 1)
      = (Some (Err ''read-only file system''), (''pass'', 2))
   \<and> dynamicStore_Put (traced (example_env False (Some (Err ''read-only file system''))))
        fresh_resolver () ''r.io'' cred_X (([], 0), [])
      = Returns (Some (Wrapped ''failed to set credsStore: '' (Err ''read-only file system'')),
                 fresh_resolver\<lparr>setCredsStoreOnce := \<lparr>done_flag = True\<rparr>\<rparr>,
                 ((''pass'', 2),
                  [PutCall (NativeStore ''pass'') ''r.io'' cred_X None,
                   SetCredentialsStoreCall ''config.json'' ''pass''
                     (Some (Err ''read-only file system''))]))
   \<and> serve (traced (example_env False (Some (Err ''read-only file system''))))
        fresh_resolver [PutRequest () ''r.io'' cred_X, PutRequest () ''r.io'' cred_Y]
        (([], 0), [])
      = Returns
          ([PutAnswer (Some (Wrapped ''failed to set credsStore: ''
                       (Err ''read-only file system''))),
            PutAnswer None],
           fresh_resolver\<lparr>setCredsStoreOnce := \<lparr>done_flag = True\<rparr>\<rparr>,
           ((''pass'', 3),
            [PutCall (NativeStore ''pass'') ''r.io'' cred_X None,
             SetCredentialsStoreCall ''config.json'' ''pass''
               (Some (Err ''read-only file system'')),
             PutCall (NativeStore ''pass'') ''r.io'' cred_Y None]))"
proof -
  have h1: "\<not> done_flag (setCredsStoreOnce fresh_resolver)"
    by (simp add: fresh_resolver_def)
  have h2: "detectedCredsStore fresh_resolver \<noteq> []"
    by (simp add: fresh_resolver_def)
  have h3: "backend_Put (example_env False (Some (Err ''read-only file system'')))
        (spec_selected_backend (example_env False (Some (Err ''read-only file system'')))
           fresh_resolver ''r.io'' ([], 0))
        () ''r.io'' cred_X ([], 0)
      = (None, ([], 1))"
    by simp
  have h4: "SetCredentialsStore (example_env False (Some (Err ''read-only file system'')))
        (config fresh_resolver) (detectedCredsStore fresh_resolver) ([], 1)
      = (Some (Err ''read-only file system''), (''pass'', 2))"
    by (simp add: fresh_resolver_def)
  from persist_failure_is_wrapped_and_not_retried [OF h1 h2 h3 h4, of "[]"]
  obtain ds' where
    put: "dynamicStore_Put (traced (example_env False (Some (Err ''read-only file system''))))
        fresh_resolver () ''r.io'' cred_X (([], 0), []) =
      Returns (Some (Wrapped ''failed to set credsStore: '' (Err ''read-only file system'')),
        ds',
        ((''pass'', 2),
         [] @ [PutCall (spec_selected_backend
                 (example_env False (Some (Err ''read-only file system'')))
                 fresh_resolver ''r.io'' ([], 0)) ''r.io'' cred_X None,
               SetCredentialsStoreCall (config fresh_resolver)
                 (detectedCredsStore fresh_resolver)
                 (Some (Err ''read-only file system''))]))"
    by blast
  have ds': "ds' = fresh_resolver\<lparr>setCredsStoreOnce := \<lparr>done_flag = True\<rparr>\<rparr>"
    using put by (simp add: dynamicStore_Put_traced spec_selected_backend_def fresh_resolver_def)
  have sel: "spec_selected_backend (example_env False (Some (Err ''read-only file system'')))
      fresh_resolver ''r.io'' ([], 0) = NativeStore ''pass''"
    by (simp add: spec_selected_backend_def fresh_resolver_def)
  have run: "serve (traced (example_env False (Some (Err ''read-only file system''))))
        fresh_resolver [PutRequest () ''r.io'' cred_X, PutRequest () ''r.io'' cred_Y]
        (([], 0), [])
      = Returns
          ([PutAnswer (Some (Wrapped ''failed to set credsStore: ''
                       (Err ''read-only file system''))),
            PutAnswer None],
           fresh_resolver\<lparr>setCredsStoreOnce := \<lparr>done_flag = True\<rparr>\<rparr>,
           ((''pass'', 3),
            [PutCall (NativeStore ''pass'') ''r.io'' cred_X None,
             SetCredentialsStoreCall ''config.json'' ''pass''
               (Some (Err ''read-only file system'')),
             PutCall (NativeStore ''pass'') ''r.io'' cred_Y None]))"
    by (simp add: dynamicStore_Put_traced spec_selected_backend_def fresh_resolver_def
        Errorf_w_def)
  have cfg: "config fresh_resolver = ''config.json''"
    "detectedCredsStore fresh_resolver = ''pass''"
    by (simp_all add: fresh_resolver_def)
  from h1 h2 h3 h4 put run show ?thesis
    by (simp only: ds' sel cfg append_Nil simp_thms)
qed

text \<open>
  C8. When the config loads and reports that authentication is configured,
  \<^verbatim>\<open>NewStore\<close> returns a resolver whose detected default is empty. For that resolver
  the selection never reaches the detected default: at every address and in every
  state it is the per-address helper, else the global helper, else the file store.
  No run of requests on it calls \<^verbatim>\<open>SetCredentialsStore\<close>, and the detected default
  stays empty.
\<close>

theorem configured_auth_detects_nothing:
  assumes "config_Load env configPath w0 = (Inr cfg, w1)"
    and "IsAuthConfigured env cfg w1"
  shows "\<exists>ds.
      NewStore env configPath opts w0 = (Inr ds, w1)
    \<and> config ds = cfg \<and> options ds = opts \<and> detectedCredsStore ds = []
    \<and> (\<forall>a w. getStore env ds a w =
          (if GetCredentialHelper env cfg a w \<noteq> []
             then NewNativeStore (GetCredentialHelper env cfg a w)
           else if CredentialsStore env cfg w \<noteq> []
             then NewNativeStore (CredentialsStore env cfg w)
           else Backend (FileStoreOf \<lparr>DisablePut = \<not> AllowPlaintextPut opts,
                                        fs_config = cfg\<rparr>)))
    \<and> (\<forall>reqs w h. \<exists>answers ds' w' calls.
          serve (traced env) ds reqs (w, h) = Returns (answers, ds', (w', h @ calls))
          \<and> persists calls = 0 \<and> detectedCredsStore ds' = [])"
proof -
  define ds where "ds = \<lparr>config = cfg, options = opts, detectedCredsStore = [],
    setCredsStoreOnce = \<lparr>done_flag = False\<rparr>\<rparr>"
  have new: "NewStore env configPath opts w0 = (Inr ds, w1)"
    using assms by (simp add: NewStore_def ds_def)
  have sel: "\<forall>a w. getStore env ds a w =
          (if GetCredentialHelper env cfg a w \<noteq> []
             then NewNativeStore (GetCredentialHelper env cfg a w)
           else if CredentialsStore env cfg w \<noteq> []
             then NewNativeStore (CredentialsStore env cfg w)
           else Backend (FileStoreOf \<lparr>DisablePut = \<not> AllowPlaintextPut opts,
                                        fs_config = cfg\<rparr>))"
    by (simp add: getStore_selected spec_selected_backend_def NewNativeStore_def ds_def)
  have runs: "\<forall>reqs w h. \<exists>answers ds' w' calls.
          serve (traced env) ds reqs (w, h) = Returns (answers, ds', (w', h @ calls))
          \<and> persists calls = 0 \<and> detectedCredsStore ds' = []"
  proof (intro allI)
    fix reqs w h
    from serve_traced [of env ds reqs w h]
    obtain answers ds' w' calls where
      "serve (traced env) ds reqs (w, h) = Returns (answers, ds', (w', h @ calls))"
      and "detectedCredsStore ds' = detectedCredsStore ds"
      and "persists calls \<le>
        (if done_flag (setCredsStoreOnce ds) \<or> detectedCredsStore ds = [] then 0 else 1)"
      by blast
    then show "\<exists>answers ds' w' calls.
          serve (traced env) ds reqs (w, h) = Returns (answers, ds', (w', h @ calls))
          \<and> persists calls = 0 \<and> detectedCredsStore ds' = []"
      by (auto simp: ds_def)
  qed
  from new sel runs show ?thesis
    by (intro exI [of _ ds]) (simp add: ds_def)
qed

text \<open>
  A config with the global helper \<^verbatim>\<open>helper-b\<close>: the resolver made for it is
  \<open>configured_resolver\<close>, and three requests on it leave no config write in the
  history.
\<close>

theorem configured_auth_detects_nothing_witness:
  "config_Load (example_env True None) ''config.json'' (''helper-b'', 0)
     = (Inr ''config.json'', (''helper-b'', 0))
   \<and> IsAuthConfigured (example_env True None) ''config.json'' (''helper-b'', 0)
   \<and> NewStore (example_env True None) ''config.json'' example_options (''helper-b'', 0)
     = (Inr configured_resolver, (''helper-b'', 0))
   \<and> serve (traced (example_env True None)) configured_resolver
        [PutRequest () ''registry.example.com'' cred_X, GetRequest () ''other.example.com'',
         PutRequest () ''other.example.com'' cred_Y]
        ((''helper-b'', 0), [])
     = Returns
         ([PutAnswer None, GetAnswer EmptyCredential None, PutAnswer None],
          configured_resolver\<lparr>setCredsStoreOnce := \<lparr>done_flag = True\<rparr>\<rparr>,
          ((''helper-b'', 2),
           [PutCall (NativeStore ''helper-a'') ''registry.example.com'' cred_X None,
            GetCall (NativeStore ''helper-b'') ''other.example.com'' EmptyCredential None,
            PutCall (NativeStore ''helper-b'') ''other.example.com'' cred_Y None]))"
proof -
  have h1: "config_Load (example_env True None) ''config.json'' (''helper-b'', 0)
     = (Inr ''config.json'', (''helper-b'', 0))"
    by simp
  have h2: "IsAuthConfigured (example_env True None) ''config.json'' (''helper-b'', 0)"
    by simp
  from configured_auth_detects_nothing [OF h1 h2, of example_options]
  obtain ds where
    new: "NewStore (example_env True None) ''config.json'' example_options (''helper-b'', 0)
      = (Inr ds, (''helper-b'', 0))"
    and "detectedCredsStore ds = []"
    by blast
  have "NewStore (example_env True None) ''config.json'' example_options (''helper-b'', 0)
      = (Inr configured_resolver, (''helper-b'', 0))"
    by (simp add: NewStore_def configured_resolver_def)
  with new have ds: "ds = configured_resolver" by simp
  have run: "serve (traced (example_env True None)) configured_resolver
        [PutRequest () ''registry.example.com'' cred_X, GetRequest () ''other.example.com'',
         PutRequest () ''other.example.com'' cred_Y]
        ((''helper-b'', 0), [])
     = Returns
         ([PutAnswer None, GetAnswer EmptyCredential None, PutAnswer None],
          configured_resolver\<lparr>setCredsStoreOnce := \<lparr>done_flag = True\<rparr>\<rparr>,
          ((''helper-b'', 2),
           [PutCall (NativeStore ''helper-a'') ''registry.example.com'' cred_X None,
            GetCall (NativeStore ''helper-b'') ''other.example.com'' EmptyCredential None,
            PutCall (NativeStore ''helper-b'') ''other.example.com'' cred_Y None]))"
    by (simp add: dynamicStore_Get_traced dynamicStore_Put_traced
        spec_selected_backend_def configured_resolver_def)
  from h1 h2 new run show ?thesis
    by (simp only: ds simp_thms)
qed

section \<open>Properties of racing calls of Put\<close>

lemma racing_inv_start: "racing_inv ds n h (racing_start ds n (w, h))"
  by (auto simp: racing_inv_def racing_start_def)

lemma saveDetected_traced:
  "saveDetected (traced env) ds (None, (w, h)) =
     (if detectedCredsStore ds \<noteq> [] then
        (case SetCredentialsStore env (config ds) (detectedCredsStore ds) w of
           (r, w') \<Rightarrow>
             (map_option (Errorf_w ''failed to set credsStore: '') r,
              (w', h @ [SetCredentialsStoreCall (config ds) (detectedCredsStore ds) r])))
      else (None, (w, h)))"
  by (simp add: saveDetected_def split: prod.splits option.splits)

lemma Store_Put_getStore_traced:
  "Store_Put (traced env) (getStore (traced env) ds a (w, h)) ctx a cred (w, h) =
     (case backend_Put env (spec_selected_backend env ds a w) ctx a cred w of
        (err, w') \<Rightarrow>
          Returns (err, (w', h @ [PutCall (spec_selected_backend env ds a w) a cred err])))"
  by (simp add: getStore_selected split: prod.splits)

lemma racing_invI:
  assumes "length (pcs st) = n"
    and "\<And>j. once_holder st = Some j \<Longrightarrow> j < n \<and> pcs st ! j = InDo"
    and "\<And>j. j < n \<Longrightarrow> pcs st ! j = InDo \<Longrightarrow> once_holder st = Some j"
    and "once_holder st \<noteq> None \<Longrightarrow> \<not> once_done st"
    and "done_flag (setCredsStoreOnce ds) \<Longrightarrow> once_done st"
    and "\<And>j r. j < n \<Longrightarrow> pcs st ! j = Returned r \<Longrightarrow> once_done st"
    and "\<And>j. j < n \<Longrightarrow> pcs st ! j \<noteq> Crashed"
    and "snd (outside st) = h @ calls"
    and "persists calls =
          (if once_done st \<and> \<not> done_flag (setCredsStoreOnce ds)
              \<and> detectedCredsStore ds \<noteq> []
           then 1 else 0)"
  shows "racing_inv ds n h st"
  unfolding racing_inv_def using assms by blast

lemma racing_invD:
  assumes "racing_inv ds n h st"
  shows "length (pcs st) = n"
    and "once_holder st = Some j \<Longrightarrow> j < n \<and> pcs st ! j = InDo"
    and "j < n \<Longrightarrow> pcs st ! j = InDo \<Longrightarrow> once_holder st = Some j"
    and "once_holder st \<noteq> None \<Longrightarrow> \<not> once_done st"
    and "done_flag (setCredsStoreOnce ds) \<Longrightarrow> once_done st"
    and "j < n \<Longrightarrow> pcs st ! j = Returned r \<Longrightarrow> once_done st"
    and "j < n \<Longrightarrow> pcs st ! j \<noteq> Crashed"
    and "\<exists>calls. snd (outside st) = h @ calls \<and>
        persists calls =
          (if once_done st \<and> \<not> done_flag (setCredsStoreOnce ds)
              \<and> detectedCredsStore ds \<noteq> []
           then 1 else 0)"
  using assms unfolding racing_inv_def by blast+

text \<open>The invariant is kept by each kind of step.\<close>

lemma racing_inv_quiet_step:
  assumes inv: "racing_inv ds n h st"
    and i: "i < n"
    and old: "pcs st ! i \<noteq> InDo"
    and new: "pc' \<noteq> InDo" "pc' \<noteq> Crashed" "\<And>r. pc' \<noteq> Returned r"
    and out: "snd w' = snd (outside st) @ extra" "persists extra = 0"
  shows "racing_inv ds n h (st\<lparr>pcs := (pcs st)[i := pc'], outside := w'\<rparr>)"
proof -
  note len = racing_invD(1) [OF inv] and h1 = racing_invD(2) [OF inv]
    and h2 = racing_invD(3) [OF inv] and h3 = racing_invD(4) [OF inv]
    and h4 = racing_invD(5) [OF inv] and h5 = racing_invD(6) [OF inv]
    and h6 = racing_invD(7) [OF inv]
  from racing_invD(8) [OF inv] obtain calls where c: "snd (outside st) = h @ calls"
    and p: "persists calls =
          (if once_done st \<and> \<not> done_flag (setCredsStoreOnce ds)
              \<and> detectedCredsStore ds \<noteq> []
           then 1 else 0)"
    by blast
  have nth: "\<And>j. j < n \<Longrightarrow> (pcs st)[i := pc'] ! j = (if j = i then pc' else pcs st ! j)"
    using len by (simp add: nth_list_update)
  let ?st = "st\<lparr>pcs := (pcs st)[i := pc'], outside := w'\<rparr>"
  show ?thesis
  proof (rule racing_invI [where calls = "calls @ extra"])
    show "length (pcs ?st) = n" using len by simp
  next
    fix j
    assume "once_holder ?st = Some j"
    then have hj: "once_holder st = Some j" by simp
    from h1 [OF hj] have j: "j < n" "pcs st ! j = InDo" by simp_all
    with old have "j \<noteq> i" by auto
    with j nth [of j] show "j < n \<and> pcs ?st ! j = InDo" by simp
  next
    fix j
    assume a: "j < n" "pcs ?st ! j = InDo"
    then have "j \<noteq> i" using nth [of j] new(1) by auto
    with a nth [of j] have "pcs st ! j = InDo" by simp
    from h2 [OF a(1) this] show "once_holder ?st = Some j" by simp
  next
    assume "once_holder ?st \<noteq> None"
    then have "once_holder st \<noteq> None" by simp
    from h3 [OF this] show "\<not> once_done ?st" by simp
  next
    assume "done_flag (setCredsStoreOnce ds)"
    from h4 [OF this] show "once_done ?st" by simp
  next
    fix j r
    assume a: "j < n" "pcs ?st ! j = Returned r"
    then have "j \<noteq> i" using nth [of j] new(3) by auto
    with a nth [of j] have "pcs st ! j = Returned r" by simp
    from h5 [OF a(1) this] show "once_done ?st" by simp
  next
    fix j
    assume a: "j < n"
    show "pcs ?st ! j \<noteq> Crashed"
      using a nth [of j] new(2) h6 [of j] by (cases "j = i") simp_all
  next
    show "snd (outside ?st) = h @ calls @ extra" using out(1) c by simp
  next
    show "persists (calls @ extra) =
        (if once_done ?st \<and> \<not> done_flag (setCredsStoreOnce ds)
              \<and> detectedCredsStore ds \<noteq> []
           then 1 else 0)"
      using p out(2) by simp
  qed
qed

lemma racing_inv_return_step:
  assumes inv: "racing_inv ds n h st"
    and i: "i < n"
    and old: "pcs st ! i = AtDo"
    and dn: "once_done st"
  shows "racing_inv ds n h (st\<lparr>pcs := (pcs st)[i := Returned None]\<rparr>)"
proof -
  note len = racing_invD(1) [OF inv] and h1 = racing_invD(2) [OF inv]
    and h2 = racing_invD(3) [OF inv] and h3 = racing_invD(4) [OF inv]
    and h4 = racing_invD(5) [OF inv] and h5 = racing_invD(6) [OF inv]
    and h6 = racing_invD(7) [OF inv]
  from racing_invD(8) [OF inv] obtain calls where c: "snd (outside st) = h @ calls"
    and p: "persists calls =
          (if once_done st \<and> \<not> done_flag (setCredsStoreOnce ds)
              \<and> detectedCredsStore ds \<noteq> []
           then 1 else 0)"
    by blast
  have nth: "\<And>j. j < n \<Longrightarrow>
      (pcs st)[i := Returned None] ! j = (if j = i then Returned None else pcs st ! j)"
    using len by (simp add: nth_list_update)
  let ?st = "st\<lparr>pcs := (pcs st)[i := Returned None]\<rparr>"
  show ?thesis
  proof (rule racing_invI [where calls = calls])
    show "length (pcs ?st) = n" using len by simp
  next
    fix j
    assume "once_holder ?st = Some j"
    then have hj: "once_holder st = Some j" by simp
    from h1 [OF hj] have j: "j < n" "pcs st ! j = InDo" by simp_all
    with old have "j \<noteq> i" by auto
    with j nth [of j] show "j < n \<and> pcs ?st ! j = InDo" by simp
  next
    fix j
    assume a: "j < n" "pcs ?st ! j = InDo"
    then have "j \<noteq> i" using nth [of j] by auto
    with a nth [of j] have "pcs st ! j = InDo" by simp
    from h2 [OF a(1) this] show "once_holder ?st = Some j" by simp
  next
    assume "once_holder ?st \<noteq> None"
    then have "once_holder st \<noteq> None" by simp
    from h3 [OF this] show "\<not> once_done ?st" by simp
  next
    show "once_done ?st" using dn by simp
  next
    fix j r
    show "once_done ?st" using dn by simp
  next
    fix j
    assume a: "j < n"
    show "pcs ?st ! j \<noteq> Crashed"
      using a nth [of j] h6 [of j] by (cases "j = i") simp_all
  next
    show "snd (outside ?st) = h @ calls" using c by simp
  next
    show "persists calls =
        (if once_done ?st \<and> \<not> done_flag (setCredsStoreOnce ds)
              \<and> detectedCredsStore ds \<noteq> []
           then 1 else 0)"
      using p by simp
  qed
qed

lemma racing_inv_enter_step:
  assumes inv: "racing_inv ds n h st"
    and i: "i < n"
    and old: "pcs st ! i = AtDo"
    and dn: "\<not> once_done st"
    and free: "once_holder st = None"
  shows "racing_inv ds n h (st\<lparr>pcs := (pcs st)[i := InDo], once_holder := Some i\<rparr>)"
proof -
  note len = racing_invD(1) [OF inv] and h1 = racing_invD(2) [OF inv]
    and h2 = racing_invD(3) [OF inv] and h3 = racing_invD(4) [OF inv]
    and h4 = racing_invD(5) [OF inv] and h5 = racing_invD(6) [OF inv]
    and h6 = racing_invD(7) [OF inv]
  from racing_invD(8) [OF inv] obtain calls where c: "snd (outside st) = h @ calls"
    and p: "persists calls =
          (if once_done st \<and> \<not> done_flag (setCredsStoreOnce ds)
              \<and> detectedCredsStore ds \<noteq> []
           then 1 else 0)"
    by blast
  have nth: "\<And>j. j < n \<Longrightarrow>
      (pcs st)[i := InDo] ! j = (if j = i then InDo else pcs st ! j)"
    using len by (simp add: nth_list_update)
  let ?st = "st\<lparr>pcs := (pcs st)[i := InDo], once_holder := Some i\<rparr>"
  show ?thesis
  proof (rule racing_invI [where calls = calls])
    show "length (pcs ?st) = n" using len by simp
  next
    fix j
    assume "once_holder ?st = Some j"
    then have "j = i" by simp
    with i nth [of i] show "j < n \<and> pcs ?st ! j = InDo" by simp
  next
    fix j
    assume a: "j < n" "pcs ?st ! j = InDo"
    have "j = i"
    proof (rule ccontr)
      assume "j \<noteq> i"
      with a nth [of j] have "pcs st ! j = InDo" by simp
      from h2 [OF a(1) this] free show False by simp
    qed
    then show "once_holder ?st = Some j" by simp
  next
    show "\<not> once_done ?st" using dn by simp
  next
    assume "done_flag (setCredsStoreOnce ds)"
    from h4 [OF this] show "once_done ?st" by simp
  next
    fix j r
    assume a: "j < n" "pcs ?st ! j = Returned r"
    then have "j \<noteq> i" using nth [of j] by auto
    with a nth [of j] have "pcs st ! j = Returned r" by simp
    from h5 [OF a(1) this] show "once_done ?st" by simp
  next
    fix j
    assume a: "j < n"
    show "pcs ?st ! j \<noteq> Crashed"
      using a nth [of j] h6 [of j] by (cases "j = i") simp_all
  next
    show "snd (outside ?st) = h @ calls" using c by simp
  next
    show "persists calls =
        (if once_done ?st \<and> \<not> done_flag (setCredsStoreOnce ds)
              \<and> detectedCredsStore ds \<noteq> []
           then 1 else 0)"
      using p by simp
  qed
qed

lemma racing_inv_run_step:
  assumes inv: "racing_inv ds n h st"
    and i: "i < n"
    and old: "pcs st ! i = InDo"
    and out: "snd w' = snd (outside st) @ extra"
      "persists extra = (if detectedCredsStore ds \<noteq> [] then 1 else 0)"
  shows "racing_inv ds n h
    (st\<lparr>pcs := (pcs st)[i := Returned r], once_done := True, once_holder := None,
        outside := w'\<rparr>)"
proof -
  note len = racing_invD(1) [OF inv] and h1 = racing_invD(2) [OF inv]
    and h2 = racing_invD(3) [OF inv] and h3 = racing_invD(4) [OF inv]
    and h4 = racing_invD(5) [OF inv] and h5 = racing_invD(6) [OF inv]
    and h6 = racing_invD(7) [OF inv]
  from racing_invD(8) [OF inv] obtain calls where c: "snd (outside st) = h @ calls"
    and p: "persists calls =
          (if once_done st \<and> \<not> done_flag (setCredsStoreOnce ds)
              \<and> detectedCredsStore ds \<noteq> []
           then 1 else 0)"
    by blast
  from h2 [OF i old] have holder: "once_holder st = Some i" .
  with h3 have nd: "\<not> once_done st" by simp
  with h4 have nd0: "\<not> done_flag (setCredsStoreOnce ds)" by blast
  have nth: "\<And>j. j < n \<Longrightarrow>
      (pcs st)[i := Returned r] ! j = (if j = i then Returned r else pcs st ! j)"
    using len by (simp add: nth_list_update)
  let ?st = "st\<lparr>pcs := (pcs st)[i := Returned r], once_done := True, once_holder := None,
        outside := w'\<rparr>"
  show ?thesis
  proof (rule racing_invI [where calls = "calls @ extra"])
    show "length (pcs ?st) = n" using len by simp
  next
    fix j
    assume "once_holder ?st = Some j"
    then show "j < n \<and> pcs ?st ! j = InDo" by simp
  next
    fix j
    assume a: "j < n" "pcs ?st ! j = InDo"
    then have ji: "j \<noteq> i" using nth [of j] by auto
    with a nth [of j] have "pcs st ! j = InDo" by simp
    from h2 [OF a(1) this] holder ji show "once_holder ?st = Some j" by simp
  next
    assume "once_holder ?st \<noteq> None"
    then show "\<not> once_done ?st" by simp
  next
    show "once_done ?st" by simp
  next
    fix j r'
    show "once_done ?st" by simp
  next
    fix j
    assume a: "j < n"
    show "pcs ?st ! j \<noteq> Crashed"
      using a nth [of j] h6 [of j] by (cases "j = i") simp_all
  next
    show "snd (outside ?st) = h @ calls @ extra" using out(1) c by simp
  next
    show "persists (calls @ extra) =
        (if once_done ?st \<and> \<not> done_flag (setCredsStoreOnce ds)
              \<and> detectedCredsStore ds \<noteq> []
           then 1 else 0)"
      using p out(2) nd nd0 by simp
  qed
qed

lemma racing_inv_advance:
  fixes h :: "('p, 'b) call list"
  assumes inv: "racing_inv ds (length puts) h st"
  shows "racing_inv ds (length puts) h (advance (traced env) ds puts i st)"
proof (cases "i < length (pcs st) \<and> i < length puts")
  case False
  then have "advance (traced env) ds puts i st = st"
    unfolding advance_def by (rule if_not_P)
  then show ?thesis using inv by simp
next
  case True
  then have i: "i < length puts" by simp
  obtain w hh where o: "outside st = (w, hh)" by (cases "outside st")
  show ?thesis
  proof (cases "pcs st ! i")
    case AtPut
    obtain ctx a cred where p: "puts ! i = (ctx, a, cred)" by (cases "puts ! i")
    obtain err w' where b:
      "backend_Put env (spec_selected_backend env ds a w) ctx a cred w = (err, w')"
      by (metis prod.exhaust)
    define pc' where "pc' = (case err of None \<Rightarrow> AtDo | Some e \<Rightarrow> Failed e)"
    have step: "advance (traced env) ds puts i st =
        st\<lparr>pcs := (pcs st)[i := pc'],
           outside := (w', hh @ [PutCall (spec_selected_backend env ds a w) a cred err])\<rparr>"
      using True AtPut p b o
      by (cases err) (simp_all add: advance_def Store_Put_getStore_traced pc'_def)
    have "pcs st ! i \<noteq> InDo" using AtPut by simp
    moreover have "pc' \<noteq> InDo" "pc' \<noteq> Crashed" "\<And>r. pc' \<noteq> Returned r"
      by (simp_all add: pc'_def split: option.splits)
    moreover have "snd (w', hh @ [PutCall (spec_selected_backend env ds a w) a cred err]) =
        snd (outside st) @ [PutCall (spec_selected_backend env ds a w) a cred err]"
      using o by simp
    moreover have "persists [PutCall (spec_selected_backend env ds a w) a cred err] = 0"
      by simp
    ultimately show ?thesis
      unfolding step using inv i by (intro racing_inv_quiet_step)
  next
    case AtDo
    show ?thesis
    proof (cases "once_done st")
      case True
      with AtDo \<open>i < length (pcs st) \<and> i < length puts\<close>
      have "advance (traced env) ds puts i st = st\<lparr>pcs := (pcs st)[i := Returned None]\<rparr>"
        by (simp add: advance_def)
      then show ?thesis using racing_inv_return_step [OF inv i AtDo True] by simp
    next
      case nd: False
      show ?thesis
      proof (cases "once_holder st = None")
        case True
        with AtDo nd \<open>i < length (pcs st) \<and> i < length puts\<close>
        have "advance (traced env) ds puts i st =
            st\<lparr>pcs := (pcs st)[i := InDo], once_holder := Some i\<rparr>"
          by (simp add: advance_def)
        then show ?thesis using racing_inv_enter_step [OF inv i AtDo nd True] by simp
      next
        case False
        with AtDo nd \<open>i < length (pcs st) \<and> i < length puts\<close>
        have "advance (traced env) ds puts i st = st"
          by (auto simp: advance_def)
        then show ?thesis using inv by simp
      qed
    qed
  next
    case InDo
    obtain r w' where s:
      "SetCredentialsStore env (config ds) (detectedCredsStore ds) w = (r, w')"
      by (metis prod.exhaust)
    define extra :: "('p, 'b) call list" where "extra =
      (if detectedCredsStore ds \<noteq> []
       then [SetCredentialsStoreCall (config ds) (detectedCredsStore ds) r] else [])"
    obtain returnErr w2 where sd: "saveDetected (traced env) ds (None, (w, hh)) = (returnErr, w2)"
      by (metis prod.exhaust)
    have w2: "snd w2 = hh @ extra"
      using sd s by (auto simp: saveDetected_traced extra_def split: if_splits)
    have step: "advance (traced env) ds puts i st =
        st\<lparr>pcs := (pcs st)[i := Returned returnErr], once_done := True,
           once_holder := None, outside := w2\<rparr>"
      using True InDo o sd by (simp add: advance_def)
    have "snd w2 = snd (outside st) @ extra" using w2 o by simp
    moreover have "persists extra = (if detectedCredsStore ds \<noteq> [] then 1 else 0)"
      by (simp add: extra_def)
    ultimately show ?thesis
      unfolding step using inv i InDo by (intro racing_inv_run_step)
  next
    case (Failed e)
    with True have "advance (traced env) ds puts i st = st" by (simp add: advance_def)
    then show ?thesis using inv by simp
  next
    case (Returned r)
    with True have "advance (traced env) ds puts i st = st" by (simp add: advance_def)
    then show ?thesis using inv by simp
  next
    case Crashed
    with True have "advance (traced env) ds puts i st = st" by (simp add: advance_def)
    then show ?thesis using inv by simp
  qed
qed

lemma racing_inv_interleave:
  "racing_inv ds (length puts) h st \<Longrightarrow>
   racing_inv ds (length puts) h (interleave (traced env) ds puts schedule st)"
  by (induction schedule arbitrary: st) (simp_all add: racing_inv_advance)


text \<open>
  A call that arrives at \<^verbatim>\<open>Do\<close> while another call runs the function waits: its step
  changes nothing.
\<close>

lemma waiting_call_has_no_step:
  assumes "pcs st ! i = AtDo" and "\<not> once_done st" and "once_holder st = Some j"
  shows "advance env ds puts i st = st"
  using assms by (auto simp: advance_def)

text \<open>
  Progress. What one step of a call does to the state, case by case; then: while work
  is left some call can take a step that reduces it, so every state reached can be
  brought to one where all calls have ended.
\<close>

lemma sum_list_map_update_less:
  "i < length xs \<Longrightarrow> f v < f (xs ! i) \<Longrightarrow>
   sum_list (map f (xs[i := v])) < (sum_list (map f xs) :: nat)"
proof (induction xs arbitrary: i)
  case Nil
  then show ?case by simp
next
  case (Cons x xs)
  show ?case
  proof (cases i)
    case 0
    with Cons.prems show ?thesis by simp
  next
    case (Suc k)
    with Cons.prems have "k < length xs" "f v < f (xs ! k)" by simp_all
    from Cons.IH [OF this] Suc show ?thesis by simp
  qed
qed

lemma sum_list_map_pos:
  "0 < (sum_list (map f xs) :: nat) \<Longrightarrow> \<exists>i<length xs. 0 < f (xs ! i)"
proof (induction xs)
  case Nil
  then show ?case by simp
next
  case (Cons x xs)
  show ?case
  proof (cases "0 < f x")
    case True
    then have "0 < length (x # xs) \<and> 0 < f ((x # xs) ! 0)" by simp
    then show ?thesis by blast
  next
    case False
    with Cons.prems have "0 < sum_list (map f xs)" by simp
    from Cons.IH [OF this] obtain i where "i < length xs" "0 < f (xs ! i)" by blast
    then have "Suc i < length (x # xs) \<and> 0 < f ((x # xs) ! Suc i)" by simp
    then show ?thesis by blast
  qed
qed

lemma sum_list_map_zero:
  "(sum_list (map f xs) :: nat) = 0 \<Longrightarrow> i < length xs \<Longrightarrow> f (xs ! i) = 0"
  by (induction xs arbitrary: i) (auto simp: nth_Cons split: nat.splits)

lemma sum_list_map_bound:
  "(\<And>x. f x \<le> (k::nat)) \<Longrightarrow> sum_list (map f xs) \<le> k * length xs"
proof (induction xs)
  case Nil
  show ?case by simp
next
  case (Cons x xs)
  from Cons.prems have "f x \<le> k" .
  moreover from Cons have "sum_list (map f xs) \<le> k * length xs" by simp
  ultimately show ?case by simp
qed

lemma steps_left_le: "steps_left p \<le> 3"
  by (cases p) simp_all

lemma advance_AtPut:
  assumes "i < length (pcs st)" and "i < length puts" and "pcs st ! i = AtPut"
    and "puts ! i = (ctx, a, cred)" and "outside st = (w, hh)"
    and "backend_Put env (spec_selected_backend env ds a w) ctx a cred w = (err, w')"
  shows "advance (traced env) ds puts i st =
      st\<lparr>pcs := (pcs st)[i := (case err of None \<Rightarrow> AtDo | Some e \<Rightarrow> Failed e)],
         outside := (w', hh @ [PutCall (spec_selected_backend env ds a w) a cred err])\<rparr>"
  using assms by (cases err) (simp_all add: advance_def Store_Put_getStore_traced)

lemma advance_AtDo:
  assumes "i < length (pcs st)" and "i < length puts" and "pcs st ! i = AtDo"
  shows "advance env ds puts i st =
      (if once_done st then st\<lparr>pcs := (pcs st)[i := Returned None]\<rparr>
       else if once_holder st = None
         then st\<lparr>pcs := (pcs st)[i := InDo], once_holder := Some i\<rparr>
       else st)"
  using assms by (simp add: advance_def)

lemma advance_InDo:
  assumes "i < length (pcs st)" and "i < length puts" and "pcs st ! i = InDo"
    and "saveDetected env ds (None, outside st) = (returnErr, w')"
  shows "advance env ds puts i st =
      st\<lparr>pcs := (pcs st)[i := Returned returnErr], once_done := True,
         once_holder := None, outside := w'\<rparr>"
  using assms by (simp add: advance_def)

lemma backend_accepts_Put:
  assumes "backend_accepts env ds (ctx, a, cred)"
  shows "fst (backend_Put env (spec_selected_backend env ds a w) ctx a cred w) = None"
proof -
  from assms obtain w' where
    "Store_Put env (getStore env ds a w) ctx a cred w = Returns (None, w')"
    unfolding backend_accepts_def by auto
  then show ?thesis by (simp add: getStore_selected)
qed

lemma some_call_can_step:
  assumes inv: "racing_inv ds (length puts) h st" and pos: "0 < work_left st"
  shows "\<exists>i<length puts. work_left (advance (traced env) ds puts i st) < work_left st"
proof -
  note len = racing_invD(1) [OF inv]
  show ?thesis
  proof (cases "\<exists>i<length puts. pcs st ! i = InDo")
    case True
    then obtain i where i: "i < length puts" and pc: "pcs st ! i = InDo" by blast
    obtain returnErr w' where
      "saveDetected (traced env) ds (None, outside st) = (returnErr, w')"
      by (metis prod.exhaust)
    with i pc len have "advance (traced env) ds puts i st =
        st\<lparr>pcs := (pcs st)[i := Returned returnErr], once_done := True,
           once_holder := None, outside := w'\<rparr>"
      by (intro advance_InDo) simp_all
    then have "work_left (advance (traced env) ds puts i st) =
        sum_list (map steps_left ((pcs st)[i := Returned returnErr]))"
      by (simp add: work_left_def)
    also have "\<dots> < work_left st"
      unfolding work_left_def using i pc len by (intro sum_list_map_update_less) simp_all
    finally show ?thesis using i by blast
  next
    case noInDo: False
    show ?thesis
    proof (cases "\<exists>i<length puts. pcs st ! i = AtPut")
      case True
      then obtain i where i: "i < length puts" and pc: "pcs st ! i = AtPut" by blast
      obtain ctx a cred where p: "puts ! i = (ctx, a, cred)" by (cases "puts ! i")
      obtain w hh where o: "outside st = (w, hh)" by (cases "outside st")
      obtain err w' where b:
        "backend_Put env (spec_selected_backend env ds a w) ctx a cred w = (err, w')"
        by (metis prod.exhaust)
      from i len have "i < length (pcs st)" by simp
      from advance_AtPut [OF this i pc p o b]
      have "work_left (advance (traced env) ds puts i st) =
          sum_list (map steps_left
            ((pcs st)[i := (case err of None \<Rightarrow> AtDo | Some e \<Rightarrow> Failed e)]))"
        by (simp add: work_left_def)
      also have "\<dots> < work_left st"
        unfolding work_left_def using i pc len
        by (intro sum_list_map_update_less) (simp_all split: option.splits)
      finally show ?thesis using i by blast
    next
      case noAtPut: False
      from pos obtain i where i: "i < length (pcs st)" and s: "0 < steps_left (pcs st ! i)"
        unfolding work_left_def using sum_list_map_pos [of steps_left "pcs st"] by blast
      from i len have i': "i < length puts" by simp
      with noInDo noAtPut s have pc: "pcs st ! i = AtDo"
        by (cases "pcs st ! i") auto
      have free: "once_holder st = None"
      proof (cases "once_holder st")
        case None
        then show ?thesis .
      next
        case (Some j)
        from racing_invD(2) [OF inv Some] noInDo show ?thesis by blast
      qed
      from advance_AtDo [OF i i' pc, of "traced env" ds] free
      have "pcs (advance (traced env) ds puts i st) =
          (pcs st)[i := (if once_done st then Returned None else InDo)]"
        by simp
      then have "work_left (advance (traced env) ds puts i st) =
          sum_list (map steps_left
            ((pcs st)[i := (if once_done st then Returned None else InDo)]))"
        by (simp add: work_left_def)
      also have "\<dots> < work_left st"
        unfolding work_left_def using i pc
        by (intro sum_list_map_update_less) simp_all
      finally show ?thesis using i' by blast
    qed
  qed
qed

lemma interleave_append:
  "interleave env ds puts (xs @ ys) st =
     interleave env ds puts ys (interleave env ds puts xs st)"
  by (induction xs arbitrary: st) simp_all

lemma racing_can_complete:
  assumes "racing_inv ds (length puts) h st"
  shows "\<exists>rest. length rest \<le> work_left st
           \<and> work_left (interleave (traced env) ds puts rest st) = 0"
  using assms
proof (induction "work_left st" arbitrary: st rule: less_induct)
  case less
  show ?case
  proof (cases "work_left st = 0")
    case True
    then have "length [] \<le> work_left st
        \<and> work_left (interleave (traced env) ds puts [] st) = 0"
      by simp
    then show ?thesis by blast
  next
    case False
    then have "0 < work_left st" by simp
    from some_call_can_step [OF less.prems this, of env]
    obtain i where i: "i < length puts"
      and d: "work_left (advance (traced env) ds puts i st) < work_left st"
      by blast
    have inv': "racing_inv ds (length puts) h (advance (traced env) ds puts i st)"
      using less.prems by (rule racing_inv_advance)
    from less.hyps [OF d inv'] obtain rest where
      l: "length rest \<le> work_left (advance (traced env) ds puts i st)"
      and z: "work_left (interleave (traced env) ds puts rest
                (advance (traced env) ds puts i st)) = 0"
      by blast
    from l d z have "length (i # rest) \<le> work_left st
        \<and> work_left (interleave (traced env) ds puts (i # rest) st) = 0"
      by simp
    then show ?thesis by blast
  qed
qed

lemma work_left_bound:
  assumes "racing_inv ds (length puts) h st"
  shows "work_left st \<le> 3 * length puts"
proof -
  have "sum_list (map steps_left (pcs st)) \<le> 3 * length (pcs st)"
    by (rule sum_list_map_bound) (rule steps_left_le)
  with racing_invD(1) [OF assms] show ?thesis by (simp add: work_left_def)
qed

lemma no_work_left_ended:
  assumes "racing_inv ds n h st" and "work_left st = 0" and "i < n"
  shows "(\<exists>e. pcs st ! i = Failed e) \<or> (\<exists>r. pcs st ! i = Returned r)"
proof -
  from assms have i: "i < length (pcs st)" using racing_invD(1) by metis
  with assms(2) have "steps_left (pcs st ! i) = 0"
    using sum_list_map_zero [of steps_left "pcs st" i] by (simp add: work_left_def)
  moreover have "pcs st ! i \<noteq> Crashed"
    using racing_invD(7) [OF assms(1) assms(3)] .
  ultimately show ?thesis by (cases "pcs st ! i") simp_all
qed

lemma advance_ended:
  assumes "steps_left (pcs st ! i) = 0"
  shows "advance env ds puts i st = st"
proof (cases "i < length (pcs st) \<and> i < length puts")
  case False
  then show ?thesis unfolding advance_def by (rule if_not_P)
next
  case True
  with assms show ?thesis by (cases "pcs st ! i") (simp_all add: advance_def)
qed

lemma no_failure_advance:
  assumes acc: "\<forall>put\<in>set puts. backend_accepts env ds put"
    and nf: "\<forall>j<length (pcs st). \<forall>e. pcs st ! j \<noteq> Failed e"
  shows "\<forall>j<length (pcs (advance (traced env) ds puts i st)).
           \<forall>e. pcs (advance (traced env) ds puts i st) ! j \<noteq> Failed e"
proof (cases "i < length (pcs st) \<and> i < length puts")
  case False
  then have "advance (traced env) ds puts i st = st"
    unfolding advance_def by (rule if_not_P)
  with nf show ?thesis by simp
next
  case True
  then have i: "i < length (pcs st)" "i < length puts" by simp_all
  have upd: "\<forall>j<length ((pcs st)[i := pc']). \<forall>e. (pcs st)[i := pc'] ! j \<noteq> Failed e"
    if "\<And>e. pc' \<noteq> Failed e" for pc'
  proof (intro allI impI)
    fix j e
    assume "j < length ((pcs st)[i := pc'])"
    then have j: "j < length (pcs st)" by simp
    show "(pcs st)[i := pc'] ! j \<noteq> Failed e"
    proof (cases "j = i")
      case True
      with j that show ?thesis by simp
    next
      case False
      with j nf show ?thesis by simp
    qed
  qed
  show ?thesis
  proof (cases "pcs st ! i")
    case AtPut
    obtain ctx a cred where p: "puts ! i = (ctx, a, cred)" by (cases "puts ! i")
    obtain w hh where o: "outside st = (w, hh)" by (cases "outside st")
    obtain err w' where b:
      "backend_Put env (spec_selected_backend env ds a w) ctx a cred w = (err, w')"
      by (metis prod.exhaust)
    from acc i(2) p have "backend_accepts env ds (ctx, a, cred)"
      by (metis nth_mem)
    from backend_accepts_Put [OF this, of w] b have "err = None" by simp
    with advance_AtPut [OF i AtPut p o b]
    have "pcs (advance (traced env) ds puts i st) = (pcs st)[i := AtDo]" by simp
    with upd [of AtDo] show ?thesis by simp
  next
    case AtDo
    from advance_AtDo [OF i AtDo, of "traced env" ds]
    have "pcs (advance (traced env) ds puts i st) = pcs st
        \<or> pcs (advance (traced env) ds puts i st) = (pcs st)[i := Returned None]
        \<or> pcs (advance (traced env) ds puts i st) = (pcs st)[i := InDo]"
      by (simp split: if_splits)
    with upd [of "Returned None"] upd [of InDo] nf show ?thesis by auto
  next
    case InDo
    obtain returnErr w' where
      "saveDetected (traced env) ds (None, outside st) = (returnErr, w')"
      by (metis prod.exhaust)
    from advance_InDo [OF i InDo this]
    have "pcs (advance (traced env) ds puts i st) = (pcs st)[i := Returned returnErr]"
      by simp
    with upd [of "Returned returnErr"] show ?thesis by simp
  next
    case (Failed e)
    then have "advance (traced env) ds puts i st = st" by (intro advance_ended) simp
    with nf show ?thesis by simp
  next
    case (Returned r)
    then have "advance (traced env) ds puts i st = st" by (intro advance_ended) simp
    with nf show ?thesis by simp
  next
    case Crashed
    then have "advance (traced env) ds puts i st = st" by (intro advance_ended) simp
    with nf show ?thesis by simp
  qed
qed

lemma no_failure_interleave:
  assumes "\<forall>put\<in>set puts. backend_accepts env ds put"
    and "\<forall>j<length (pcs st). \<forall>e. pcs st ! j \<noteq> Failed e"
  shows "\<forall>j<length (pcs (interleave (traced env) ds puts schedule st)).
           \<forall>e. pcs (interleave (traced env) ds puts schedule st) ! j \<noteq> Failed e"
  using assms(2)
proof (induction schedule arbitrary: st)
  case Nil
  then show ?case by simp
next
  case (Cons i schedule)
  from no_failure_advance [OF assms(1) Cons.prems, of i]
  have "\<forall>j<length (pcs (advance (traced env) ds puts i st)).
           \<forall>e. pcs (advance (traced env) ds puts i st) ! j \<noteq> Failed e" .
  from Cons.IH [OF this] show ?case by simp
qed

lemma no_failure_start:
  "\<forall>j<length (pcs (racing_start ds n w)). \<forall>e. pcs (racing_start ds n w) ! j \<noteq> Failed e"
  by (simp add: racing_start_def)

text \<open>
  C9, as amended. Take any number of \<^verbatim>\<open>Put\<close> calls racing on one resolver and any
  schedule of their steps, and let \<open>st\<close> be the state reached.

  The history holds at most one call of \<^verbatim>\<open>SetCredentialsStore\<close>. No call has
  panicked. As soon as one call has returned from \<^verbatim>\<open>Do\<close>, the \<^verbatim>\<open>Once\<close> is done, that is
  the function handed to \<^verbatim>\<open>Do\<close> has finished, and the number of config writes is
  final: one if the resolver holds a detected default and its \<^verbatim>\<open>Once\<close> was not done at
  the start, none otherwise. In particular this is the count when all calls, at
  least one, succeeded at the backend and have returned.

  The calls do get there: from \<open>st\<close> some further steps \<open>rest\<close>, at most three for
  each call, bring every call to its end, returned from \<^verbatim>\<open>Do\<close> or failed at the
  backend; no call waits for ever. And when the backend accepts the write of each
  call, whatever the state, such steps bring every call to return from \<^verbatim>\<open>Do\<close>, and
  then, with at least one call, the config has been written exactly once if the
  resolver holds a detected default and its \<^verbatim>\<open>Once\<close> was not done at the start, and
  not at all otherwise.
\<close>

theorem racing_Puts_persist_once_if_detected:
  assumes "st = interleave (traced env) ds puts schedule
                  (racing_start ds (length puts) (w, h))"
  shows "(\<exists>w' calls.
      outside st = (w', h @ calls)
    \<and> persists calls \<le> 1
    \<and> (\<forall>i<length puts. pcs st ! i \<noteq> Crashed)
    \<and> (\<forall>i<length puts. \<forall>r. pcs st ! i = Returned r \<longrightarrow>
          once_done st
          \<and> persists calls =
              (if \<not> done_flag (setCredsStoreOnce ds) \<and> detectedCredsStore ds \<noteq> []
               then 1 else 0))
    \<and> (puts \<noteq> [] \<and> (\<forall>i<length puts. \<exists>r. pcs st ! i = Returned r) \<longrightarrow>
          persists calls =
            (if \<not> done_flag (setCredsStoreOnce ds) \<and> detectedCredsStore ds \<noteq> []
             then 1 else 0)))
   \<and> (\<exists>rest. length rest \<le> 3 * length puts
        \<and> (\<forall>i<length puts.
              (\<exists>e. pcs (interleave (traced env) ds puts rest st) ! i = Failed e)
              \<or> (\<exists>r. pcs (interleave (traced env) ds puts rest st) ! i = Returned r)))
   \<and> ((\<forall>put\<in>set puts. backend_accepts env ds put) \<longrightarrow>
        (\<exists>rest w' calls. length rest \<le> 3 * length puts
          \<and> outside (interleave (traced env) ds puts rest st) = (w', h @ calls)
          \<and> (\<forall>i<length puts.
                \<exists>r. pcs (interleave (traced env) ds puts rest st) ! i = Returned r)
          \<and> (puts \<noteq> [] \<longrightarrow>
                persists calls =
                  (if \<not> done_flag (setCredsStoreOnce ds) \<and> detectedCredsStore ds \<noteq> []
                   then 1 else 0))))"
proof -
  have inv: "racing_inv ds (length puts) h st"
    unfolding assms by (rule racing_inv_interleave [OF racing_inv_start])
  from racing_invD(8) [OF inv] obtain calls where c: "snd (outside st) = h @ calls"
    and n: "persists calls =
      (if once_done st \<and> \<not> done_flag (setCredsStoreOnce ds)
          \<and> detectedCredsStore ds \<noteq> [] then 1 else 0)"
    by blast
  note d = racing_invD(6) [OF inv] and nc = racing_invD(7) [OF inv]
  have o: "outside st = (fst (outside st), h @ calls)"
    using c by (cases "outside st") simp
  have le: "persists calls \<le> 1"
    using n by (simp split: if_splits)
  have returned: "\<forall>i<length puts. \<forall>r. pcs st ! i = Returned r \<longrightarrow>
          once_done st
          \<and> persists calls =
              (if \<not> done_flag (setCredsStoreOnce ds) \<and> detectedCredsStore ds \<noteq> []
               then 1 else 0)"
  proof (intro allI impI)
    fix i r
    assume "i < length puts" "pcs st ! i = Returned r"
    then have "once_done st" by (rule d)
    with n show "once_done st
          \<and> persists calls =
              (if \<not> done_flag (setCredsStoreOnce ds) \<and> detectedCredsStore ds \<noteq> []
               then 1 else 0)"
      by simp
  qed
  have all: "puts \<noteq> [] \<and> (\<forall>i<length puts. \<exists>r. pcs st ! i = Returned r) \<longrightarrow>
          persists calls =
            (if \<not> done_flag (setCredsStoreOnce ds) \<and> detectedCredsStore ds \<noteq> []
             then 1 else 0)"
  proof
    assume a: "puts \<noteq> [] \<and> (\<forall>i<length puts. \<exists>r. pcs st ! i = Returned r)"
    then have l: "0 < length puts" by simp
    with a obtain r where "pcs st ! 0 = Returned r" by blast
    with returned l show "persists calls =
            (if \<not> done_flag (setCredsStoreOnce ds) \<and> detectedCredsStore ds \<noteq> []
             then 1 else 0)"
      by blast
  qed
  have crashed: "\<forall>i<length puts. pcs st ! i \<noteq> Crashed"
    using nc by simp
  have safety: "\<exists>w' calls.
        outside st = (w', h @ calls)
      \<and> persists calls \<le> 1
      \<and> (\<forall>i<length puts. pcs st ! i \<noteq> Crashed)
      \<and> (\<forall>i<length puts. \<forall>r. pcs st ! i = Returned r \<longrightarrow>
            once_done st
            \<and> persists calls =
                (if \<not> done_flag (setCredsStoreOnce ds) \<and> detectedCredsStore ds \<noteq> []
                 then 1 else 0))
      \<and> (puts \<noteq> [] \<and> (\<forall>i<length puts. \<exists>r. pcs st ! i = Returned r) \<longrightarrow>
            persists calls =
              (if \<not> done_flag (setCredsStoreOnce ds) \<and> detectedCredsStore ds \<noteq> []
               then 1 else 0))"
  proof (intro exI [of _ "fst (outside st)"] exI [of _ calls] conjI)
    show "outside st = (fst (outside st), h @ calls)" by (rule o)
    show "persists calls \<le> 1" by (rule le)
    show "\<forall>i<length puts. pcs st ! i \<noteq> Crashed" by (rule crashed)
    show "\<forall>i<length puts. \<forall>r. pcs st ! i = Returned r \<longrightarrow>
          once_done st
          \<and> persists calls =
              (if \<not> done_flag (setCredsStoreOnce ds) \<and> detectedCredsStore ds \<noteq> []
               then 1 else 0)"
      by (rule returned)
    show "puts \<noteq> [] \<and> (\<forall>i<length puts. \<exists>r. pcs st ! i = Returned r) \<longrightarrow>
          persists calls =
            (if \<not> done_flag (setCredsStoreOnce ds) \<and> detectedCredsStore ds \<noteq> []
             then 1 else 0)"
      by (rule all)
  qed
  from racing_can_complete [OF inv, of env] obtain rest where
    rl: "length rest \<le> work_left st"
    and rz: "work_left (interleave (traced env) ds puts rest st) = 0"
    by blast
  define st' where "st' = interleave (traced env) ds puts rest st"
  have inv': "racing_inv ds (length puts) h st'"
    unfolding st'_def using inv by (rule racing_inv_interleave)
  have bound: "length rest \<le> 3 * length puts"
    using rl work_left_bound [OF inv] by simp
  have ended: "\<forall>i<length puts.
      (\<exists>e. pcs st' ! i = Failed e) \<or> (\<exists>r. pcs st' ! i = Returned r)"
  proof (intro allI impI)
    fix i
    assume "i < length puts"
    with inv' rz show "(\<exists>e. pcs st' ! i = Failed e) \<or> (\<exists>r. pcs st' ! i = Returned r)"
      unfolding st'_def by (intro no_work_left_ended)
  qed
  have progress: "\<exists>rest. length rest \<le> 3 * length puts
        \<and> (\<forall>i<length puts.
              (\<exists>e. pcs (interleave (traced env) ds puts rest st) ! i = Failed e)
              \<or> (\<exists>r. pcs (interleave (traced env) ds puts rest st) ! i = Returned r))"
    using bound ended unfolding st'_def by blast
  have accepted: "\<exists>rest w' calls. length rest \<le> 3 * length puts
          \<and> outside (interleave (traced env) ds puts rest st) = (w', h @ calls)
          \<and> (\<forall>i<length puts.
                \<exists>r. pcs (interleave (traced env) ds puts rest st) ! i = Returned r)
          \<and> (puts \<noteq> [] \<longrightarrow>
                persists calls =
                  (if \<not> done_flag (setCredsStoreOnce ds) \<and> detectedCredsStore ds \<noteq> []
                   then 1 else 0))"
    if acc: "\<forall>put\<in>set puts. backend_accepts env ds put"
  proof -
    have "\<forall>j<length (pcs st). \<forall>e. pcs st ! j \<noteq> Failed e"
      unfolding assms using acc no_failure_start by (rule no_failure_interleave)
    with acc have nf: "\<forall>j<length (pcs st'). \<forall>e. pcs st' ! j \<noteq> Failed e"
      unfolding st'_def by (rule no_failure_interleave)
    note len' = racing_invD(1) [OF inv']
    have ret: "\<forall>i<length puts. \<exists>r. pcs st' ! i = Returned r"
    proof (intro allI impI)
      fix i
      assume i: "i < length puts"
      with ended have "(\<exists>e. pcs st' ! i = Failed e) \<or> (\<exists>r. pcs st' ! i = Returned r)"
        by simp
      moreover from nf i len' have "\<forall>e. pcs st' ! i \<noteq> Failed e" by simp
      ultimately show "\<exists>r. pcs st' ! i = Returned r" by blast
    qed
    from racing_invD(8) [OF inv'] obtain calls' where
      c': "snd (outside st') = h @ calls'"
      and n': "persists calls' =
        (if once_done st' \<and> \<not> done_flag (setCredsStoreOnce ds)
            \<and> detectedCredsStore ds \<noteq> [] then 1 else 0)"
      by blast
    have o': "outside st' = (fst (outside st'), h @ calls')"
      using c' by (cases "outside st'") simp
    have exact: "puts \<noteq> [] \<longrightarrow>
        persists calls' =
          (if \<not> done_flag (setCredsStoreOnce ds) \<and> detectedCredsStore ds \<noteq> []
           then 1 else 0)"
    proof
      assume "puts \<noteq> []"
      then have l: "0 < length puts" by simp
      with ret obtain r where "pcs st' ! 0 = Returned r" by blast
      with l have "once_done st'" by (rule racing_invD(6) [OF inv'])
      with n' show "persists calls' =
          (if \<not> done_flag (setCredsStoreOnce ds) \<and> detectedCredsStore ds \<noteq> []
           then 1 else 0)"
        by simp
    qed
    from bound o' ret exact show ?thesis
      unfolding st'_def
      by (intro exI [of _ rest] exI [of _ "fst (outside st')"] exI [of _ calls'])
        (simp add: st'_def)
  qed
  from safety progress accepted show ?thesis by blast
qed

text \<open>
  Two calls race on a fresh resolver with the detected default \<^verbatim>\<open>pass\<close>; the backend
  accepts both writes. In the run shown both write to the backend, the second call
  enters \<^verbatim>\<open>Do\<close> first, the first call finds the mutex taken and waits, the second call
  writes the config and returns, then the first call returns: one config write. And
  from the state where the first call waits, some at most six further steps end both
  calls with one config write in the history.
\<close>

theorem racing_Puts_persist_once_if_detected_witness:
  "backend_accepts (example_env False None) fresh_resolver ((), ''r.io'', cred_X)
   \<and> backend_accepts (example_env False None) fresh_resolver ((), ''r.io'', cred_Y)
   \<and> interleave (traced (example_env False None)) fresh_resolver two_puts [0, 1, 1, 0, 1, 0]
     (racing_start fresh_resolver (length two_puts) (([], 0), []))
   = \<lparr>pcs = [Returned None, Returned None], once_done = True, once_holder = None,
      outside = ((''pass'', 3),
        [PutCall (NativeStore ''pass'') ''r.io'' cred_X None,
         PutCall (NativeStore ''pass'') ''r.io'' cred_Y None,
         SetCredentialsStoreCall ''config.json'' ''pass'' None])\<rparr>
   \<and> persists
        [PutCall (NativeStore ''pass'') ''r.io'' cred_X None,
         PutCall (NativeStore ''pass'') ''r.io'' cred_Y None,
         SetCredentialsStoreCall ''config.json'' ''pass'' None :: (string, nat) call]
       = (if \<not> done_flag (setCredsStoreOnce fresh_resolver)
             \<and> detectedCredsStore fresh_resolver \<noteq> [] then 1 else 0)
   \<and> interleave (traced (example_env False None)) fresh_resolver two_puts [0, 1, 1, 0]
     (racing_start fresh_resolver (length two_puts) (([], 0), []))
   = \<lparr>pcs = [AtDo, InDo], once_done = False, once_holder = Some 1,
      outside = (([], 2),
        [PutCall (NativeStore ''pass'') ''r.io'' cred_X None,
         PutCall (NativeStore ''pass'') ''r.io'' cred_Y None])\<rparr>
   \<and> (\<exists>rest w' calls. length rest \<le> 6
        \<and> outside (interleave (traced (example_env False None)) fresh_resolver two_puts rest
             \<lparr>pcs = [AtDo, InDo], once_done = False, once_holder = Some 1,
                outside = (([], 2),
                  [PutCall (NativeStore ''pass'') ''r.io'' cred_X None,
                   PutCall (NativeStore ''pass'') ''r.io'' cred_Y None])\<rparr>)
           = (w', calls)
        \<and> pcs (interleave (traced (example_env False None)) fresh_resolver two_puts rest
             \<lparr>pcs = [AtDo, InDo], once_done = False, once_holder = Some 1,
                outside = (([], 2),
                  [PutCall (NativeStore ''pass'') ''r.io'' cred_X None,
                   PutCall (NativeStore ''pass'') ''r.io'' cred_Y None])\<rparr>) ! 0
           \<noteq> AtDo
        \<and> persists calls = 1)"
proof -
  have accX: "backend_accepts (example_env False None) fresh_resolver ((), ''r.io'', cred_X)"
    by (simp add: backend_accepts_def getStore_selected)
  have accY: "backend_accepts (example_env False None) fresh_resolver ((), ''r.io'', cred_Y)"
    by (simp add: backend_accepts_def getStore_selected)
  have acc: "\<forall>put\<in>set two_puts. backend_accepts (example_env False None) fresh_resolver put"
    using accX accY by (simp add: two_puts_def)
  have run: "interleave (traced (example_env False None)) fresh_resolver two_puts
       [0, 1, 1, 0, 1, 0] (racing_start fresh_resolver (length two_puts) (([], 0), []))
     = \<lparr>pcs = [Returned None, Returned None], once_done = True, once_holder = None,
        outside = ((''pass'', 3),
          [PutCall (NativeStore ''pass'') ''r.io'' cred_X None,
           PutCall (NativeStore ''pass'') ''r.io'' cred_Y None,
           SetCredentialsStoreCall ''config.json'' ''pass'' None])\<rparr>"
    by (simp add: advance_def racing_start_def Store_Put_getStore_traced saveDetected_traced
        spec_selected_backend_def fresh_resolver_def two_puts_def)
  have part: "interleave (traced (example_env False None)) fresh_resolver two_puts
       [0, 1, 1, 0] (racing_start fresh_resolver (length two_puts) (([], 0), []))
     = \<lparr>pcs = [AtDo, InDo], once_done = False, once_holder = Some 1,
        outside = (([], 2),
          [PutCall (NativeStore ''pass'') ''r.io'' cred_X None,
           PutCall (NativeStore ''pass'') ''r.io'' cred_Y None])\<rparr>"
    by (simp add: advance_def racing_start_def Store_Put_getStore_traced saveDetected_traced
        spec_selected_backend_def fresh_resolver_def two_puts_def)
  note full = racing_Puts_persist_once_if_detected
    [OF refl, of "example_env False None" fresh_resolver two_puts "[0, 1, 1, 0, 1, 0]"
       "([], 0)" "[]"]
  from full obtain w' calls where
    o: "outside (interleave (traced (example_env False None)) fresh_resolver two_puts
          [0, 1, 1, 0, 1, 0] (racing_start fresh_resolver (length two_puts) (([], 0), [])))
        = (w', [] @ calls)"
    and r: "\<forall>i<length two_puts. \<forall>r.
        pcs (interleave (traced (example_env False None)) fresh_resolver two_puts
          [0, 1, 1, 0, 1, 0] (racing_start fresh_resolver (length two_puts) (([], 0), [])))
          ! i = Returned r \<longrightarrow>
        once_done (interleave (traced (example_env False None)) fresh_resolver two_puts
          [0, 1, 1, 0, 1, 0] (racing_start fresh_resolver (length two_puts) (([], 0), [])))
        \<and> persists calls =
          (if \<not> done_flag (setCredsStoreOnce fresh_resolver)
              \<and> detectedCredsStore fresh_resolver \<noteq> [] then 1 else 0)"
    by blast
  from o [unfolded run] have calls: "calls =
      [PutCall (NativeStore ''pass'') ''r.io'' cred_X None,
       PutCall (NativeStore ''pass'') ''r.io'' cred_Y None,
       SetCredentialsStoreCall ''config.json'' ''pass'' None]"
    by simp
  have pos: "0 < length two_puts" by (simp add: two_puts_def)
  with r [unfolded run] have count: "persists calls =
      (if \<not> done_flag (setCredsStoreOnce fresh_resolver)
          \<and> detectedCredsStore fresh_resolver \<noteq> [] then 1 else 0)"
    by fastforce
  note waiting = racing_Puts_persist_once_if_detected
    [OF refl, of "example_env False None" fresh_resolver two_puts "[0, 1, 1, 0]"
       "([], 0)" "[]"]
  from waiting acc obtain rest w'' calls'' where
    l: "length rest \<le> 3 * length two_puts"
    and o'': "outside (interleave (traced (example_env False None)) fresh_resolver two_puts
          rest (interleave (traced (example_env False None)) fresh_resolver two_puts
            [0, 1, 1, 0] (racing_start fresh_resolver (length two_puts) (([], 0), []))))
        = (w'', [] @ calls'')"
    and ret: "\<forall>i<length two_puts. \<exists>r.
        pcs (interleave (traced (example_env False None)) fresh_resolver two_puts
          rest (interleave (traced (example_env False None)) fresh_resolver two_puts
            [0, 1, 1, 0] (racing_start fresh_resolver (length two_puts) (([], 0), []))))
          ! i = Returned r"
    and n: "two_puts \<noteq> [] \<longrightarrow> persists calls'' =
          (if \<not> done_flag (setCredsStoreOnce fresh_resolver)
              \<and> detectedCredsStore fresh_resolver \<noteq> [] then 1 else 0)"
    by blast
  from l have l6: "length rest \<le> 6" by (simp add: two_puts_def)
  from n have n1: "persists calls'' = 1" by (simp add: two_puts_def fresh_resolver_def)
  from ret pos obtain r0 where
    "pcs (interleave (traced (example_env False None)) fresh_resolver two_puts
          rest (interleave (traced (example_env False None)) fresh_resolver two_puts
            [0, 1, 1, 0] (racing_start fresh_resolver (length two_puts) (([], 0), []))))
       ! 0 = Returned r0"
    by blast
  then have r0: "pcs (interleave (traced (example_env False None)) fresh_resolver two_puts
          rest (interleave (traced (example_env False None)) fresh_resolver two_puts
            [0, 1, 1, 0] (racing_start fresh_resolver (length two_puts) (([], 0), []))))
       ! 0 \<noteq> AtDo"
    by simp
  from l6 o'' [unfolded part] r0 [unfolded part] n1
  have ex: "\<exists>rest w' calls. length rest \<le> 6
        \<and> outside (interleave (traced (example_env False None)) fresh_resolver two_puts rest
             \<lparr>pcs = [AtDo, InDo], once_done = False, once_holder = Some 1,
                outside = (([], 2),
                  [PutCall (NativeStore ''pass'') ''r.io'' cred_X None,
                   PutCall (NativeStore ''pass'') ''r.io'' cred_Y None])\<rparr>)
           = (w', calls)
        \<and> pcs (interleave (traced (example_env False None)) fresh_resolver two_puts rest
             \<lparr>pcs = [AtDo, InDo], once_done = False, once_holder = Some 1,
                outside = (([], 2),
                  [PutCall (NativeStore ''pass'') ''r.io'' cred_X None,
                   PutCall (NativeStore ''pass'') ''r.io'' cred_Y None])\<rparr>) ! 0
           \<noteq> AtDo
        \<and> persists calls = 1"
    by (intro exI [of _ rest] exI [of _ w''] exI [of _ calls'']) simp
  from accX accY run count part ex show ?thesis
    by (simp only: calls simp_thms)
qed

text \<open>
  C9 as stated, exactly one config write for any number of racing calls that succeed
  at the backend, fails for a resolver without a detected default. For the config
  with the global helper \<^verbatim>\<open>helper-b\<close>, \<^verbatim>\<open>NewStore\<close> returns \<open>configured_resolver\<close>; two
  calls race on it, both succeed at the backend and return nil, the \<^verbatim>\<open>Once\<close> is done,
  and the history holds the two backend writes and no config write.
\<close>

theorem racing_Puts_without_detected_default_never_persist:
  "NewStore (example_env True None) ''config.json'' example_options (''helper-b'', 0)
     = (Inr configured_resolver, (''helper-b'', 0))
   \<and> interleave (traced (example_env True None)) configured_resolver two_puts
       [0, 1, 0, 1, 0, 1]
       (racing_start configured_resolver (length two_puts) ((''helper-b'', 0), []))
     = \<lparr>pcs = [Returned None, Returned None], once_done = True, once_holder = None,
        outside = ((''helper-b'', 2),
          [PutCall (NativeStore ''helper-b'') ''r.io'' cred_X None,
           PutCall (NativeStore ''helper-b'') ''r.io'' cred_Y None])\<rparr>
   \<and> persists
        [PutCall (NativeStore ''helper-b'') ''r.io'' cred_X None,
         PutCall (NativeStore ''helper-b'') ''r.io'' cred_Y None :: (string, nat) call]
       \<noteq> 1"
proof (intro conjI)
  show "NewStore (example_env True None) ''config.json'' example_options (''helper-b'', 0)
     = (Inr configured_resolver, (''helper-b'', 0))"
    by (simp add: NewStore_def configured_resolver_def)
  show "interleave (traced (example_env True None)) configured_resolver two_puts
       [0, 1, 0, 1, 0, 1]
       (racing_start configured_resolver (length two_puts) ((''helper-b'', 0), []))
     = \<lparr>pcs = [Returned None, Returned None], once_done = True, once_holder = None,
        outside = ((''helper-b'', 2),
          [PutCall (NativeStore ''helper-b'') ''r.io'' cred_X None,
           PutCall (NativeStore ''helper-b'') ''r.io'' cred_Y None])\<rparr>"
    by (simp add: advance_def racing_start_def Store_Put_getStore_traced saveDetected_traced
        spec_selected_backend_def configured_resolver_def two_puts_def)
  show "persists
        [PutCall (NativeStore ''helper-b'') ''r.io'' cred_X None,
         PutCall (NativeStore ''helper-b'') ''r.io'' cred_Y None :: (string, nat) call]
       \<noteq> 1"
    by simp
qed

end
